theory Spec2Isabelle
  imports Main "HOL-Library.Word" "HOL-Library.Log_Nat"
begin

section \<open>Binary64 arithmetic\<close>

text \<open>
  \<^verbatim>\<open>ComputeSplitIndex\<close> works on C++ \<^verbatim>\<open>double\<close> values. A double is modelled by
  its value: a finite rational, one of the two infinities, or NaN. Every arithmetic
  operation computes the exact rational result and rounds it to the nearest value with a
  53-bit significand, ties to even, with gradual underflow below \<open>2^-1022\<close> (the spacing
  never gets finer than \<open>2^-1074\<close>) and overflow to infinity above the largest finite
  double. This is the IEC 60559 arithmetic of the platforms the code is built for; in it a
  division by zero is not an error: \<open>x / 0\<close> is an infinity for \<open>x \<noteq> 0\<close> and \<open>0 / 0\<close> is
  NaN. Comparisons involving NaN are false.

  Zero carries no sign in this model. The sign of a zero is observable only through a
  division by it, and every divisor in \<^verbatim>\<open>ComputeSplitIndex\<close> is a converted unsigned
  integer, so the zero divisor is always \<open>+0\<close>.
\<close>

datatype double = Fin rat | PInf | NInf | NaN

text \<open>For \<open>q > 0\<close>, \<open>ilog2 q\<close> is the integer \<open>k\<close> with \<open>2^k \<le> q < 2^(k+1)\<close>.\<close>

definition ilog2 :: "rat \<Rightarrow> int" where
  "ilog2 q = (case quotient_of q of (a, b) \<Rightarrow>
     let k = bitlen a - bitlen b
     in if 2 powi k \<le> q then k else k - 1)"

definition round_even :: "rat \<Rightarrow> int" where
  "round_even x = (let f = \<lfloor>x\<rfloor>; r = x - of_int f in
     if r < 1 / 2 then f else if 1 / 2 < r then f + 1 else if even f then f else f + 1)"

definition max_double :: rat where
  "max_double = (2 ^ 53 - 1) * 2 ^ 971"

definition round_double :: "rat \<Rightarrow> double" where
  "round_double q = (if q = 0 then Fin 0 else
     let e = max (ilog2 \<bar>q\<bar> - 52) (- 1074);
         r = of_int (round_even (q / 2 powi e)) * 2 powi e
     in if max_double < r then PInf else if r < - max_double then NInf else Fin r)"

fun dsub :: "double \<Rightarrow> double \<Rightarrow> double" where
  "dsub NaN y = NaN"
| "dsub x NaN = NaN"
| "dsub (Fin a) (Fin b) = round_double (a - b)"
| "dsub (Fin a) PInf = NInf"
| "dsub (Fin a) NInf = PInf"
| "dsub PInf PInf = NaN"
| "dsub PInf y = PInf"
| "dsub NInf NInf = NaN"
| "dsub NInf y = NInf"

fun dmul :: "double \<Rightarrow> double \<Rightarrow> double" where
  "dmul NaN y = NaN"
| "dmul x NaN = NaN"
| "dmul (Fin a) (Fin b) = round_double (a * b)"
| "dmul (Fin a) PInf = (if a = 0 then NaN else if 0 < a then PInf else NInf)"
| "dmul (Fin a) NInf = (if a = 0 then NaN else if 0 < a then NInf else PInf)"
| "dmul PInf (Fin b) = (if b = 0 then NaN else if 0 < b then PInf else NInf)"
| "dmul NInf (Fin b) = (if b = 0 then NaN else if 0 < b then NInf else PInf)"
| "dmul PInf PInf = PInf"
| "dmul PInf NInf = NInf"
| "dmul NInf PInf = NInf"
| "dmul NInf NInf = PInf"

fun ddiv :: "double \<Rightarrow> double \<Rightarrow> double" where
  "ddiv NaN y = NaN"
| "ddiv x NaN = NaN"
| "ddiv (Fin a) (Fin b) =
     (if b = 0 then (if a = 0 then NaN else if 0 < a then PInf else NInf)
      else round_double (a / b))"
| "ddiv (Fin a) PInf = Fin 0"
| "ddiv (Fin a) NInf = Fin 0"
| "ddiv PInf (Fin b) = (if 0 \<le> b then PInf else NInf)"
| "ddiv NInf (Fin b) = (if 0 \<le> b then NInf else PInf)"
| "ddiv PInf y = NaN"
| "ddiv NInf y = NaN"

fun dabs :: "double \<Rightarrow> double" where
  "dabs (Fin a) = Fin \<bar>a\<bar>"
| "dabs PInf = PInf"
| "dabs NInf = PInf"
| "dabs NaN = NaN"

fun dless :: "double \<Rightarrow> double \<Rightarrow> bool" where
  "dless (Fin a) (Fin b) = (a < b)"
| "dless (Fin a) PInf = True"
| "dless NInf (Fin b) = True"
| "dless NInf PInf = True"
| "dless x y = False"

definition dgreater :: "double \<Rightarrow> double \<Rightarrow> bool" where
  "dgreater x y = dless y x"

text \<open>The literals \<^verbatim>\<open>1.0\<close>, \<^verbatim>\<open>1.05\<close>, \<^verbatim>\<open>0.95\<close> and \<^verbatim>\<open>0.5\<close>.\<close>

definition d_1_0 :: double where "d_1_0 = round_double 1"
definition d_1_05 :: double where "d_1_05 = round_double (105 / 100)"
definition d_0_95 :: double where "d_0_95 = round_double (95 / 100)"
definition d_0_5 :: double where "d_0_5 = round_double (1 / 2)"

section \<open>Counter banks and the adapter state\<close>

text \<open>
  \<^verbatim>\<open>counter_type\<close> is \<^verbatim>\<open>size_t\<close>, an unsigned 64-bit integer whose arithmetic wraps.
  The conversion of a \<^verbatim>\<open>size_t\<close> to \<^verbatim>\<open>double\<close> rounds to nearest.
\<close>

type_synonym counter_type = "64 word"

definition double_of_size :: "counter_type \<Rightarrow> double" where
  "double_of_size w = round_double (of_int (uint w))"

record CounterSet =
  read_counters :: "counter_type list"
  write_counters :: "counter_type list"

definition Reset :: "CounterSet \<Rightarrow> CounterSet" where
  "Reset cs = cs\<lparr>read_counters := map (\<lambda>counter. 0) (read_counters cs),
                 write_counters := map (\<lambda>counter. 0) (write_counters cs)\<rparr>"

text \<open>
  The static members of \<^verbatim>\<open>Adapter<T, IndexType>\<close> together with the flag
  \<^verbatim>\<open>AdapterConfig::Enabled\<close>. \<^verbatim>\<open>Index\<close> values are natural numbers; the number of
  columns \<^verbatim>\<open>NCOUNTERS = COLCOUNT\<close> is the parameter \<open>n\<close> of every operation that uses
  it, and the calling thread's \<^verbatim>\<open>TThread::id()\<close> is an explicit argument.
  \<^verbatim>\<open>thread_counters\<close> has \<^verbatim>\<open>MAX_THREADS\<close> entries.
\<close>

record Adapter =
  Enabled :: bool
  current_split :: nat
  global_counters :: CounterSet
  thread_counters :: "CounterSet list"

text \<open>\<^verbatim>\<open>INITIALIZE_ADAPTER\<close>: every static member is value-initialised.\<close>

definition zero_CounterSet :: "nat \<Rightarrow> CounterSet" where
  "zero_CounterSet n = \<lparr>read_counters = replicate n 0, write_counters = replicate n 0\<rparr>"

definition INITIALIZE_ADAPTER :: "nat \<Rightarrow> nat \<Rightarrow> bool \<Rightarrow> Adapter" where
  "INITIALIZE_ADAPTER n max_threads en =
     \<lparr>Enabled = en, current_split = 0, global_counters = zero_CounterSet n,
      thread_counters = replicate max_threads (zero_CounterSet n)\<rparr>"

text \<open>A state whose arrays have the sizes the template fixes.\<close>

definition sized_CounterSet :: "nat \<Rightarrow> CounterSet \<Rightarrow> bool" where
  "sized_CounterSet n cs \<longleftrightarrow> length (read_counters cs) = n \<and> length (write_counters cs) = n"

definition sized :: "nat \<Rightarrow> nat \<Rightarrow> Adapter \<Rightarrow> bool" where
  "sized n max_threads s \<longleftrightarrow>
     sized_CounterSet n (global_counters s) \<and> length (thread_counters s) = max_threads \<and>
     list_all (sized_CounterSet n) (thread_counters s)"

subsection \<open>Queries\<close>

definition GetRead :: "nat \<Rightarrow> Adapter \<Rightarrow> counter_type" where
  "GetRead index s = (if Enabled s then read_counters (global_counters s) ! index else 0)"

definition GetWrite :: "nat \<Rightarrow> Adapter \<Rightarrow> counter_type" where
  "GetWrite index s = (if Enabled s then write_counters (global_counters s) ! index else 0)"

definition Get :: "nat \<Rightarrow> Adapter \<Rightarrow> counter_type \<times> counter_type" where
  "Get index s = (GetRead index s, GetWrite index s)"

definition TGetRead :: "nat \<Rightarrow> nat \<Rightarrow> Adapter \<Rightarrow> counter_type" where
  "TGetRead threadid index s =
     (if Enabled s then read_counters (thread_counters s ! threadid) ! index else 0)"

definition TGetWrite :: "nat \<Rightarrow> nat \<Rightarrow> Adapter \<Rightarrow> counter_type" where
  "TGetWrite threadid index s =
     (if Enabled s then write_counters (thread_counters s ! threadid) ! index else 0)"

definition TGet :: "nat \<Rightarrow> nat \<Rightarrow> Adapter \<Rightarrow> counter_type \<times> counter_type" where
  "TGet threadid index s = (TGetRead threadid index s, TGetWrite threadid index s)"

definition CurrentSplit :: "nat \<Rightarrow> Adapter \<Rightarrow> nat" where
  "CurrentSplit n s = (if current_split s = 0 then n else current_split s)"

subsection \<open>Counting, committing and resetting\<close>

text \<open>
  \<^verbatim>\<open>CountRead\<close> and \<^verbatim>\<open>CountWrite\<close> assert \<^verbatim>\<open>index < COLCOUNT\<close> before they look at the
  flag; a failed assertion aborts the process, which is the result \<open>None\<close>.
\<close>

definition CountRead :: "nat \<Rightarrow> nat \<Rightarrow> nat \<Rightarrow> counter_type \<Rightarrow> Adapter \<Rightarrow> Adapter option" where
  "CountRead n tid index count s =
     (if \<not> index < n then None
      else if Enabled s then
        (let bank = thread_counters s ! tid in
         Some (s\<lparr>thread_counters := (thread_counters s)
           [tid := bank\<lparr>read_counters := (read_counters bank)
              [index := read_counters bank ! index + count]\<rparr>]\<rparr>))
      else Some s)"

definition CountWrite :: "nat \<Rightarrow> nat \<Rightarrow> nat \<Rightarrow> counter_type \<Rightarrow> Adapter \<Rightarrow> Adapter option" where
  "CountWrite n tid index count s =
     (if \<not> index < n then None
      else if Enabled s then
        (let bank = thread_counters s ! tid in
         Some (s\<lparr>thread_counters := (thread_counters s)
           [tid := bank\<lparr>write_counters := (write_counters bank)
              [index := write_counters bank ! index + count]\<rparr>]\<rparr>))
      else Some s)"

text \<open>One iteration of the loop of \<^verbatim>\<open>Commit\<close>: the two \<^verbatim>\<open>fetch_add\<close> calls for slot \<open>i\<close>.\<close>

definition Commit_body :: "CounterSet \<Rightarrow> nat \<Rightarrow> CounterSet \<Rightarrow> CounterSet" where
  "Commit_body bank i g =
     g\<lparr>read_counters := (read_counters g)[i := read_counters g ! i + read_counters bank ! i],
       write_counters := (write_counters g)[i := write_counters g ! i + write_counters bank ! i]\<rparr>"

definition Commit :: "nat \<Rightarrow> nat \<Rightarrow> Adapter \<Rightarrow> Adapter" where
  "Commit n threadid s =
     (if Enabled s then
        s\<lparr>global_counters :=
            fold (Commit_body (thread_counters s ! threadid)) [0..<n] (global_counters s)\<rparr>
      else s)"

definition ResetGlobal :: "Adapter \<Rightarrow> Adapter" where
  "ResetGlobal s = (if Enabled s then s\<lparr>global_counters := Reset (global_counters s)\<rparr> else s)"

definition ResetThread :: "nat \<Rightarrow> Adapter \<Rightarrow> Adapter" where
  "ResetThread tid s =
     (if Enabled s then
        s\<lparr>thread_counters := (thread_counters s)[tid := Reset (thread_counters s ! tid)]\<rparr>
      else s)"

section \<open>The split advisor\<close>

text \<open>The local arrays and totals that the first loop of \<^verbatim>\<open>ComputeSplitIndex\<close> fills.\<close>

record snapshot =
  read_freq :: "counter_type list"
  write_freq :: "counter_type list"
  read_psum :: "counter_type list"
  write_psum :: "counter_type list"
  read_total :: counter_type
  write_total :: counter_type

text \<open>
  The arrays are uninitialised in the source; every slot is written before it is read, so
  the model starts them at zero.
\<close>

definition fresh_snapshot :: "nat \<Rightarrow> snapshot" where
  "fresh_snapshot n =
     \<lparr>read_freq = replicate n 0, write_freq = replicate n 0,
      read_psum = replicate n 0, write_psum = replicate n 0,
      read_total = 0, write_total = 0\<rparr>"

definition snapshot_body :: "Adapter \<Rightarrow> nat \<Rightarrow> snapshot \<Rightarrow> snapshot" where
  "snapshot_body s numindex a =
     (let rf = GetRead numindex s;
          wf = GetWrite numindex s;
          rp = (if numindex \<noteq> 0 then read_psum a ! (numindex - 1) + rf else rf);
          wp = (if numindex \<noteq> 0 then write_psum a ! (numindex - 1) + wf else wf)
      in \<lparr>read_freq = (read_freq a)[numindex := rf],
          write_freq = (write_freq a)[numindex := wf],
          read_psum = (read_psum a)[numindex := rp],
          write_psum = (write_psum a)[numindex := wp],
          read_total = read_total a + rf,
          write_total = write_total a + wf\<rparr>)"

definition take_snapshot :: "nat \<Rightarrow> Adapter \<Rightarrow> snapshot" where
  "take_snapshot n s = fold (snapshot_body s) [0..<n] (fresh_snapshot n)"

text \<open>The expression \<^verbatim>\<open>psum[k - 1] * 1.0 / total\<close> for a split candidate \<open>k\<close>.\<close>

definition left_fraction :: "counter_type list \<Rightarrow> counter_type \<Rightarrow> nat \<Rightarrow> double" where
  "left_fraction psum tot k =
     ddiv (dmul (double_of_size (psum ! (k - 1))) d_1_0) (double_of_size tot)"

text \<open>
  The body of the first scan. The loop state is \<^verbatim>\<open>best_split\<close> with the two entries of
  \<^verbatim>\<open>best_data\<close>; \<open>cur_split\<close> is the loop variable \<^verbatim>\<open>current_split\<close> (the name of
  the static member as well).
\<close>

definition skew_body :: "snapshot \<Rightarrow> nat \<Rightarrow> nat \<times> double \<times> double \<Rightarrow> nat \<times> double \<times> double" where
  "skew_body a cur_split best =
     (case best of (best_split, best_data0, best_data1) \<Rightarrow>
        let current_data0 = left_fraction (read_psum a) (read_total a) cur_split;
            current_data1 = left_fraction (write_psum a) (write_total a) cur_split;
            best_diff = dabs (dsub best_data1 best_data0);
            current_diff = dabs (dsub current_data1 current_data0)
        in if dgreater current_diff (dmul best_diff d_1_05)
           then (cur_split, current_data0, current_data1)
           else (best_split, best_data0, best_data1))"

text \<open>
  \<^verbatim>\<open>for (size_t current_split = NCOUNTERS - 1; current_split; current_split--)\<close>:
  the second argument is the loop variable.
\<close>

fun skew_loop :: "snapshot \<Rightarrow> nat \<Rightarrow> nat \<times> double \<times> double \<Rightarrow> nat \<times> double \<times> double" where
  "skew_loop a 0 best = best"
| "skew_loop a (Suc k) best = skew_loop a k (skew_body a (Suc k) best)"

definition balance_body :: "snapshot \<Rightarrow> nat \<Rightarrow> nat \<Rightarrow> nat" where
  "balance_body a cur_split best_split =
     (let best_diff = dabs (dsub (left_fraction (write_psum a) (write_total a) best_split) d_0_5);
          current_diff =
            dabs (dsub (left_fraction (write_psum a) (write_total a) cur_split) d_0_5)
      in if dless current_diff (dmul best_diff d_0_95) then cur_split else best_split)"

fun balance_loop :: "snapshot \<Rightarrow> nat \<Rightarrow> nat \<Rightarrow> nat" where
  "balance_loop a 0 best_split = best_split"
| "balance_loop a (Suc k) best_split = balance_loop a k (balance_body a (Suc k) best_split)"

definition skew_pass :: "nat \<Rightarrow> snapshot \<Rightarrow> nat \<times> double \<times> double" where
  "skew_pass n a =
     skew_loop a (n - 1)
       (n, left_fraction (read_psum a) (read_total a) n,
           left_fraction (write_psum a) (write_total a) n)"

text \<open>
  \<^verbatim>\<open>ComputeSplitIndex\<close> for \<open>n = NCOUNTERS \<ge> 1\<close>. (With no columns the source reads
  \<^verbatim>\<open>read_psum[-1]\<close>; the results below all assume \<open>0 < n\<close>.)
\<close>

definition ComputeSplitIndex :: "nat \<Rightarrow> Adapter \<Rightarrow> nat" where
  "ComputeSplitIndex n s =
     (let a = take_snapshot n s;
          best_split = fst (skew_pass n a)
      in if best_split = n then balance_loop a (n - 1) best_split else best_split)"

text \<open>
  \<^verbatim>\<open>RecomputeSplit\<close> returns \<^verbatim>\<open>changed\<close> together with the new state. The line it
  prints is not modelled.
\<close>

definition RecomputeSplit :: "nat \<Rightarrow> Adapter \<Rightarrow> bool \<times> Adapter" where
  "RecomputeSplit n s =
     (let new_split = ComputeSplitIndex n s;
          s1 = ResetGlobal s;
          changed = (new_split \<noteq> current_split s1)
      in (changed, s1\<lparr>current_split := new_split\<rparr>))"

section \<open>Sequences of calls\<close>

text \<open>
  A call of the interface by some thread. The first argument of the counting calls and of
  \<^verbatim>\<open>ResetThread\<close> is the calling thread; the argument of \<^verbatim>\<open>Commit\<close> is its
  \<^verbatim>\<open>threadid\<close> parameter.
\<close>

datatype call =
    CountReadCall nat nat counter_type
  | CountWriteCall nat nat counter_type
  | CommitCall nat
  | RecomputeSplitCall
  | ResetGlobalCall
  | ResetThreadCall nat

fun perform :: "nat \<Rightarrow> call \<Rightarrow> Adapter \<Rightarrow> Adapter option" where
  "perform n (CountReadCall tid index count) s = CountRead n tid index count s"
| "perform n (CountWriteCall tid index count) s = CountWrite n tid index count s"
| "perform n (CommitCall threadid) s = Some (Commit n threadid s)"
| "perform n RecomputeSplitCall s = Some (snd (RecomputeSplit n s))"
| "perform n ResetGlobalCall s = Some (ResetGlobal s)"
| "perform n (ResetThreadCall tid) s = Some (ResetThread tid s)"

fun run :: "nat \<Rightarrow> call list \<Rightarrow> Adapter \<Rightarrow> Adapter option" where
  "run n [] s = Some s"
| "run n (c # cs) s = (case perform n c s of None \<Rightarrow> None | Some s' \<Rightarrow> run n cs s')"

text \<open>
  The preconditions of a call: a column index below \<^verbatim>\<open>COLCOUNT\<close> (the assertion) and a
  thread handle below \<^verbatim>\<open>MAX_THREADS\<close> (the promise of the thread-handle service).
\<close>

fun call_ok :: "nat \<Rightarrow> nat \<Rightarrow> call \<Rightarrow> bool" where
  "call_ok n max_threads (CountReadCall tid index count) \<longleftrightarrow> tid < max_threads \<and> index < n"
| "call_ok n max_threads (CountWriteCall tid index count) \<longleftrightarrow> tid < max_threads \<and> index < n"
| "call_ok n max_threads (CommitCall threadid) \<longleftrightarrow> threadid < max_threads"
| "call_ok n max_threads (ResetThreadCall tid) \<longleftrightarrow> tid < max_threads"
| "call_ok n max_threads c \<longleftrightarrow> True"

text \<open>
  What a schedule of counting and committing calls records: the number of reads and of
  writes that thread \<open>t\<close> counts on column \<open>c\<close> (unbounded natural numbers), and the
  threads that commit, in order.
\<close>

fun reads_of :: "nat \<Rightarrow> nat \<Rightarrow> call list \<Rightarrow> nat" where
  "reads_of t c [] = 0"
| "reads_of t c (CountReadCall tid index count # cs) =
     (if tid = t \<and> index = c then unat count else 0) + reads_of t c cs"
| "reads_of t c (x # cs) = reads_of t c cs"

fun writes_of :: "nat \<Rightarrow> nat \<Rightarrow> call list \<Rightarrow> nat" where
  "writes_of t c [] = 0"
| "writes_of t c (CountWriteCall tid index count # cs) =
     (if tid = t \<and> index = c then unat count else 0) + writes_of t c cs"
| "writes_of t c (x # cs) = writes_of t c cs"

fun committers :: "call list \<Rightarrow> nat list" where
  "committers [] = []"
| "committers (CommitCall threadid # cs) = threadid # committers cs"
| "committers (x # cs) = committers cs"

text \<open>
  A schedule in which threads only count and commit, every thread commits at most once,
  and a thread that has committed (the threads in \<open>D\<close>) counts no more.
\<close>

fun commit_once :: "nat set \<Rightarrow> call list \<Rightarrow> bool" where
  "commit_once D [] \<longleftrightarrow> True"
| "commit_once D (CountReadCall tid index count # cs) \<longleftrightarrow> tid \<notin> D \<and> commit_once D cs"
| "commit_once D (CountWriteCall tid index count # cs) \<longleftrightarrow> tid \<notin> D \<and> commit_once D cs"
| "commit_once D (CommitCall threadid # cs) \<longleftrightarrow>
     threadid \<notin> D \<and> commit_once (insert threadid D) cs"
| "commit_once D (x # cs) \<longleftrightarrow> False"

section \<open>The first scan, as the specification words it\<close>

text \<open>
  \<open>diff(k) = |write_fraction(k) - read_fraction(k)|\<close> for a candidate \<open>k\<close>, and the scan
  of the candidates \<open>k, k - 1, \<dots>, 1\<close> that replaces the best candidate by a new one
  exactly when the new \<open>diff\<close> exceeds the best \<open>diff\<close> times \<open>1.05\<close>.
\<close>

definition skew_diff :: "snapshot \<Rightarrow> nat \<Rightarrow> double" where
  "skew_diff a k =
     dabs (dsub (left_fraction (write_psum a) (write_total a) k)
                (left_fraction (read_psum a) (read_total a) k))"

fun skew_scan :: "snapshot \<Rightarrow> nat \<Rightarrow> nat \<Rightarrow> nat" where
  "skew_scan a 0 best = best"
| "skew_scan a (Suc k) best =
     skew_scan a k
       (if dgreater (skew_diff a (Suc k)) (dmul (skew_diff a best) d_1_05) then Suc k else best)"

text \<open>
  One iteration of the source's first loop at the candidate \<open>k\<close>, started with the best
  candidate \<open>b\<close> and the fractions of \<open>b\<close> in \<^verbatim>\<open>best_data\<close>: the new best candidate.
\<close>

definition scan_step :: "snapshot \<Rightarrow> nat \<Rightarrow> nat \<Rightarrow> nat" where
  "scan_step a k b =
     fst (skew_body a k
       (b, left_fraction (read_psum a) (read_total a) b,
           left_fraction (write_psum a) (write_total a) b))"

section \<open>Representable values\<close>

text \<open>The finite values of a double: at most 53 significant bits at a spacing of at least
  \<open>2^-1074\<close>, within the finite range.\<close>

definition binary64 :: "rat \<Rightarrow> bool" where
  "binary64 r \<longleftrightarrow>
     (\<exists>m e. r = of_int m * 2 powi e \<and> \<bar>m\<bar> < 2 ^ 53 \<and> - 1074 \<le> e) \<and> \<bar>r\<bar> \<le> max_double"

section \<open>Example states\<close>

definition skewed_bank :: Adapter where
  "skewed_bank =
     \<lparr>Enabled = True, current_split = 0,
      global_counters = \<lparr>read_counters = [10, 10, 10, 10], write_counters = [0, 0, 40, 40]\<rparr>,
      thread_counters = replicate 2 (zero_CounterSet 4)\<rparr>"

definition uniform_bank :: Adapter where
  "uniform_bank =
     \<lparr>Enabled = True, current_split = 0,
      global_counters = \<lparr>read_counters = [5, 5, 5, 5], write_counters = [5, 5, 5, 5]\<rparr>,
      thread_counters = replicate 2 (zero_CounterSet 4)\<rparr>"

definition busy_bank :: Adapter where
  "busy_bank =
     \<lparr>Enabled = True, current_split = 0,
      global_counters = \<lparr>read_counters = [1, 2, 3, 4], write_counters = [5, 6, 7, 8]\<rparr>,
      thread_counters =
        [\<lparr>read_counters = [1, 0, 2, 0], write_counters = [0, 3, 0, 0]\<rparr>, zero_CounterSet 4]\<rparr>"

definition disabled_bank :: Adapter where
  "disabled_bank = busy_bank\<lparr>Enabled := False\<rparr>"

definition near_tie_bank :: Adapter where
  "near_tie_bank =
     \<lparr>Enabled = True, current_split = 0,
      global_counters = \<lparr>read_counters = [0, 50, 10, 4], write_counters = [0, 9, 11, 44]\<rparr>,
      thread_counters = replicate 2 (zero_CounterSet 4)\<rparr>"

text \<open>
  The state after \<^verbatim>\<open>CountRead(1, 5)\<close> by thread 0, \<^verbatim>\<open>Commit(0)\<close> and \<^verbatim>\<open>ResetGlobal()\<close>: the
  global bank is zero, the bank of thread 0 still holds its 5 reads of column 1.
\<close>

definition carried_bank :: Adapter where
  "carried_bank =
     \<lparr>Enabled = True, current_split = 0, global_counters = zero_CounterSet 4,
      thread_counters =
        [\<lparr>read_counters = [0, 5, 0, 0], write_counters = [0, 0, 0, 0]\<rparr>, zero_CounterSet 4]\<rparr>"

section \<open>Properties of the rounding\<close>

lemma powi2_pos: "0 < (2::rat) powi k"
  by simp

lemma powi2_add: "(2::rat) powi (j + k) = 2 powi j * 2 powi k"
  by (simp add: power_int_add)

lemma powi2_diff: "(2::rat) powi (j - k) = 2 powi j / 2 powi k"
  by (simp add: power_int_diff)

lemma powi2_mono: "j \<le> k \<Longrightarrow> (2::rat) powi j \<le> 2 powi k"
  by (simp add: power_int_increasing)

lemma powi2_strict_mono: "j < k \<Longrightarrow> (2::rat) powi j < 2 powi k"
  by (simp add: power_int_strict_increasing)

lemma powi2_less_iff: "(2::rat) powi j < 2 powi k \<longleftrightarrow> j < k"
  using powi2_mono[of k j] powi2_strict_mono[of j k] by (auto simp: not_le[symmetric])

lemma of_int_bitlen_bounds:
  assumes "0 < a"
  shows "(2::rat) powi (bitlen a - 1) \<le> of_int a" and "of_int a < (2::rat) powi (bitlen a)"
proof -
  from bitlen_bounds[OF assms]
  have lo: "2 ^ nat (bitlen a - 1) \<le> a" and hi: "a < 2 ^ nat (bitlen a)" by auto
  have nn: "0 \<le> bitlen a - 1"
    using assms bitlen_eq_zero_iff[of a] bitlen_nonneg[of a] by linarith
  have "(2::rat) powi (bitlen a - 1) = 2 ^ nat (bitlen a - 1)"
    using nn by (simp add: power_int_def)
  also have "\<dots> = of_int (2 ^ nat (bitlen a - 1))" by simp
  also have "\<dots> \<le> of_int a" using lo by (simp only: of_int_le_iff)
  finally show "(2::rat) powi (bitlen a - 1) \<le> of_int a" .
  have "(of_int a :: rat) < of_int (2 ^ nat (bitlen a))" using hi by (simp only: of_int_less_iff)
  also have "\<dots> = 2 ^ nat (bitlen a)" by simp
  also have "\<dots> = (2::rat) powi (bitlen a)" using nn by (simp add: power_int_def)
  finally show "of_int a < (2::rat) powi (bitlen a)" .
qed

lemma ilog2_bounds:
  assumes "0 < q"
  shows "2 powi (ilog2 q) \<le> q" and "q < 2 powi (ilog2 q + 1)"
proof -
  obtain a b where ab: "quotient_of q = (a, b)" by force
  have b: "0 < b" using quotient_of_denom_pos[OF ab] .
  have q: "q = of_int a / of_int b" using quotient_of_div[OF ab] .
  have a: "0 < a" using assms b q by (simp add: zero_less_divide_iff)
  define k where "k = bitlen a - bitlen b"
  have il: "ilog2 q = (if 2 powi k \<le> q then k else k - 1)"
    by (simp add: ilog2_def ab k_def Let_def)
  have bpos: "(0::rat) < of_int b" using b by simp
  have apos: "(0::rat) \<le> of_int a" using a by simp
  have "q < 2 powi (bitlen a) / 2 powi (bitlen b - 1)"
    unfolding q
    by (rule frac_less[OF apos of_int_bitlen_bounds(2)[OF a] powi2_pos of_int_bitlen_bounds(1)[OF b]])
  then have up: "q < 2 powi (k + 1)"
    by (simp add: k_def powi2_diff[symmetric] algebra_simps)
  have "2 powi (bitlen a - 1) / 2 powi (bitlen b) < q"
    unfolding q
    by (rule frac_less2[OF powi2_pos of_int_bitlen_bounds(1)[OF a] bpos of_int_bitlen_bounds(2)[OF b]])
  then have lo: "2 powi (k - 1) < q"
    by (simp add: k_def powi2_diff[symmetric] algebra_simps)
  show "2 powi (ilog2 q) \<le> q" using lo by (simp add: il)
  show "q < 2 powi (ilog2 q + 1)" using up by (auto simp add: il not_le)
qed

lemma ilog2_unique:
  assumes "2 powi k \<le> q" and "q < 2 powi (k + 1)"
  shows "ilog2 q = k"
proof -
  have pos: "0 < q" using assms(1) powi2_pos[of k] by linarith
  from ilog2_bounds[OF pos] have "2 powi (ilog2 q) < (2::rat) powi (k + 1)"
    using assms(2) by linarith
  then have 1: "ilog2 q < k + 1" by (simp only: powi2_less_iff)
  from ilog2_bounds[OF pos] have "(2::rat) powi k < 2 powi (ilog2 q + 1)"
    using assms(1) by linarith
  then have "k < ilog2 q + 1" by (simp only: powi2_less_iff)
  with 1 show ?thesis by linarith
qed

lemma round_even_of_int: "round_even (of_int z) = z"
  by (simp add: round_even_def)

lemma round_even_cases: "round_even x = \<lfloor>x\<rfloor> \<or> (round_even x = \<lfloor>x\<rfloor> + 1 \<and> of_int \<lfloor>x\<rfloor> < x)"
  by (auto simp add: round_even_def Let_def)

lemma round_even_ge:
  assumes "of_int z \<le> x"
  shows "z \<le> round_even x"
proof -
  have "z \<le> \<lfloor>x\<rfloor>" using assms by (simp add: le_floor_iff)
  then show ?thesis using round_even_cases[of x] by linarith
qed

lemma round_even_le:
  assumes "x \<le> of_int z"
  shows "round_even x \<le> z"
proof -
  have f: "\<lfloor>x\<rfloor> \<le> z" using assms by (simp add: floor_le_iff) 
  show ?thesis
  proof (cases "round_even x = \<lfloor>x\<rfloor>")
    case True
    then show ?thesis using f by simp
  next
    case False
    then have 1: "round_even x = \<lfloor>x\<rfloor> + 1" and 2: "of_int \<lfloor>x\<rfloor> < x"
      using round_even_cases[of x] by auto
    from 2 assms have "(of_int \<lfloor>x\<rfloor> :: rat) < of_int z" by linarith
    then have "\<lfloor>x\<rfloor> < z" by (simp only: of_int_less_iff)
    then show ?thesis using 1 by simp
  qed
qed

lemma round_even_near:
  assumes "\<bar>x - of_int z\<bar> < 1 / 2"
  shows "round_even x = z"
proof (cases "of_int z \<le> x")
  case True
  then have "\<lfloor>x\<rfloor> = z" using assms by (intro floor_unique) (auto simp: abs_less_iff)
  then show ?thesis using assms True by (simp add: round_even_def Let_def abs_less_iff)
next
  case False
  then have "\<lfloor>x\<rfloor> = z - 1" using assms by (intro floor_unique) (auto simp: abs_less_iff)
  then show ?thesis using assms False by (simp add: round_even_def Let_def abs_less_iff)
qed

lemma round_double_exact:
  assumes q: "q = of_int m * 2 powi e0" and m: "\<bar>m\<bar> < 2 ^ 53" and e0: "- 1074 \<le> e0"
    and r: "\<bar>q\<bar> \<le> max_double"
  shows "round_double q = Fin q"
proof (cases "q = 0")
  case True
  then show ?thesis by (simp add: round_double_def)
next
  case False
  define e where "e = max (ilog2 \<bar>q\<bar> - 52) (- 1074)"
  have pos: "0 < \<bar>q\<bar>" using False by simp
  have "\<bar>q\<bar> = of_int \<bar>m\<bar> * 2 powi e0" by (simp add: q abs_mult)
  also have "\<dots> < 2 ^ 53 * 2 powi e0"
  proof -
    have "(of_int \<bar>m\<bar> :: rat) < of_int (2 ^ 53)" using m by (simp only: of_int_less_iff)
    then show ?thesis by simp
  qed
  also have "\<dots> = 2 powi (53 + e0)" by (simp add: powi2_add)
  finally have "2 powi (ilog2 \<bar>q\<bar>) < (2::rat) powi (53 + e0)"
    using ilog2_bounds(1)[OF pos] by linarith
  then have "ilog2 \<bar>q\<bar> < 53 + e0" by (simp only: powi2_less_iff)
  then have le: "e \<le> e0" using e0 by (simp add: e_def)
  have "q / 2 powi e = of_int m * 2 powi (e0 - e)"
    by (simp add: q powi2_diff)
  also have "\<dots> = of_int m * 2 ^ nat (e0 - e)" using le by (simp add: power_int_def)
  also have "\<dots> = of_int (m * 2 ^ nat (e0 - e))" by simp
  finally have "round_even (q / 2 powi e) = m * 2 ^ nat (e0 - e)"
    by (simp only: round_even_of_int)
  then have "(of_int (round_even (q / 2 powi e)) :: rat) * 2 powi e
      = of_int m * (2 ^ nat (e0 - e) * 2 powi e)"
    by simp
  also have "(2::rat) ^ nat (e0 - e) * 2 powi e = 2 powi (e0 - e) * 2 powi e"
    using le by (simp add: power_int_def)
  also have "\<dots> = 2 powi e0" by (simp add: powi2_add[symmetric])
  finally have rt: "of_int (round_even (q / 2 powi e)) * 2 powi e = q" by (simp add: q)
  show ?thesis
    using False r rt unfolding round_double_def Let_def e_def[symmetric]
    by (auto simp: abs_le_iff)
qed

lemma binary64_round: "binary64 r \<Longrightarrow> round_double r = Fin r"
  unfolding binary64_def using round_double_exact by blast

lemma round_double_unfold:
  assumes "q \<noteq> 0"
  shows "round_double q =
    (let r = of_int (round_even (q / 2 powi (max (ilog2 \<bar>q\<bar> - 52) (- 1074)))) *
             2 powi (max (ilog2 \<bar>q\<bar> - 52) (- 1074))
     in if max_double < r then PInf else if r < - max_double then NInf else Fin r)"
  using assms by (simp add: round_double_def Let_def)

lemma scaled_bound:
  assumes "q \<noteq> 0" and "e = max (ilog2 \<bar>q\<bar> - 52) (- 1074)"
  shows "q / 2 powi e < 2 ^ 53" and "- (2 ^ 53) < q / 2 powi e"
proof -
  have pos: "0 < \<bar>q\<bar>" using assms by simp
  have "ilog2 \<bar>q\<bar> + 1 \<le> 53 + e" using assms by simp
  then have "(2::rat) powi (ilog2 \<bar>q\<bar> + 1) \<le> 2 powi (53 + e)" by (rule powi2_mono)
  then have "\<bar>q\<bar> < 2 powi (53 + e)" using ilog2_bounds(2)[OF pos] by linarith
  then have "\<bar>q\<bar> < 2 ^ 53 * 2 powi e" by (simp add: powi2_add)
  then have a: "\<bar>q\<bar> / 2 powi e < 2 ^ 53" by (simp add: pos_divide_less_eq)
  have "q / 2 powi e \<le> \<bar>q\<bar> / 2 powi e" by (simp add: divide_right_mono)
  then show "q / 2 powi e < 2 ^ 53" using a by linarith
  have "(- \<bar>q\<bar>) / 2 powi e \<le> q / 2 powi e"
    by (rule divide_right_mono) simp_all
  then have "- (\<bar>q\<bar> / 2 powi e) \<le> q / 2 powi e" by simp
  then show "- (2 ^ 53) < q / 2 powi e" using a by linarith
qed

lemma powi2_Suc: "(2::rat) powi (e + 1) = 2 * 2 powi e"
  using powi2_add[of e 1] by simp

lemma binary64_0: "binary64 0"
proof -
  have "(0::rat) = of_int 0 * 2 powi 0 \<and> \<bar>0::int\<bar> < 2 ^ 53 \<and> - 1074 \<le> (0::int)" by simp
  then have "\<exists>m e. (0::rat) = of_int m * 2 powi e \<and> \<bar>m\<bar> < 2 ^ 53 \<and> - 1074 \<le> e" by blast
  moreover have "\<bar>0::rat\<bar> \<le> max_double" by (simp add: max_double_def)
  ultimately show ?thesis unfolding binary64_def by blast
qed

lemma round_double_binary64:
  assumes "round_double q = Fin r"
  shows "binary64 r"
proof (cases "q = 0")
  case True
  then have "r = 0" using assms by (simp add: round_double_def)
  then show ?thesis using binary64_0 by simp
next
  case False
  define e where "e = max (ilog2 \<bar>q\<bar> - 52) (- 1074)"
  define k where "k = round_even (q / 2 powi e)"
  define r' :: rat where "r' = of_int k * 2 powi e"
  have "round_double q = (if max_double < r' then PInf else if r' < - max_double then NInf else Fin r')"
    unfolding round_double_unfold[OF False] Let_def r'_def k_def e_def ..
  then have rr: "r = r' \<and> \<not> max_double < r' \<and> \<not> r' < - max_double"
    using assms by (simp split: if_splits)
  then have r: "r = of_int k * 2 powi e" by (simp add: r'_def)
  have rng: "\<bar>r\<bar> \<le> max_double" using rr by (simp add: abs_le_iff not_less)
  have e: "- 1074 \<le> e" by (simp add: e_def)
  have "q / 2 powi e \<le> of_int (2 ^ 53)" using scaled_bound(1)[OF False e_def] by simp
  then have up: "k \<le> 2 ^ 53" unfolding k_def by (rule round_even_le)
  have "of_int (- (2 ^ 53)) \<le> q / 2 powi e" using scaled_bound(2)[OF False e_def] by simp
  then have lo: "- (2 ^ 53) \<le> k" unfolding k_def by (rule round_even_ge)
  consider "\<bar>k\<bar> < 2 ^ 53" | "k = 2 ^ 53" | "k = - (2 ^ 53)" using up lo by linarith
  then have "\<exists>m e'. r = of_int m * 2 powi e' \<and> \<bar>m\<bar> < 2 ^ 53 \<and> - 1074 \<le> e'"
  proof cases
    case 1
    then show ?thesis using r e by blast
  next
    case 2
    have "r = of_int (2 ^ 52) * 2 powi (e + 1)" unfolding r 2 powi2_Suc by simp
    moreover have "\<bar>2 ^ 52 :: int\<bar> < 2 ^ 53" by simp
    moreover have "- 1074 \<le> e + 1" using e by simp
    ultimately show ?thesis by blast
  next
    case 3
    have "r = of_int (- (2 ^ 52)) * 2 powi (e + 1)" unfolding r 3 powi2_Suc by simp
    moreover have "\<bar>- (2 ^ 52) :: int\<bar> < 2 ^ 53" by simp
    moreover have "- 1074 \<le> e + 1" using e by simp
    ultimately show ?thesis by blast
  qed
  then show ?thesis using rng unfolding binary64_def by blast
qed

lemma round_double_above:
  assumes bx: "binary64 x" and x0: "0 \<le> x" and xy: "x \<le> y"
  shows "round_double y = PInf \<or> (\<exists>r. round_double y = Fin r \<and> x \<le> r)"
proof (cases "y = 0")
  case True
  then show ?thesis using x0 xy by (simp add: round_double_def)
next
  case False
  then have ypos: "0 < y" using x0 xy by simp
  define ey where "ey = max (ilog2 y - 52) (- 1074)"
  define ky where "ky = round_even (y / 2 powi ey)"
  define r :: rat where "r = of_int ky * 2 powi ey"
  have rd: "round_double y = (if max_double < r then PInf else if r < - max_double then NInf else Fin r)"
    using ypos unfolding round_double_unfold[OF False] Let_def r_def ky_def ey_def by simp
  have md: "0 \<le> max_double" by (simp add: max_double_def)
  have "x \<le> r"
  proof (cases "x = 0")
    case True
    have "of_int 0 \<le> y / 2 powi ey" using ypos by simp
    then have "0 \<le> ky" unfolding ky_def by (rule round_even_ge)
    then show ?thesis using True by (simp add: r_def)
  next
    case xn: False
    then have xpos: "0 < x" using x0 by simp
    define ex where "ex = max (ilog2 x - 52) (- 1074)"
    define kx where "kx = round_even (x / 2 powi ex)"
    have "round_double x = Fin x" using bx by (rule binary64_round)
    then have xk: "x = of_int kx * 2 powi ex"
      using xpos unfolding round_double_unfold[OF xn] Let_def kx_def ex_def
      by (auto split: if_splits)
    have "2 powi (ilog2 x) < (2::rat) powi (ilog2 y + 1)"
      using ilog2_bounds(1)[OF xpos] ilog2_bounds(2)[OF ypos] xy by linarith
    then have ll: "ilog2 x \<le> ilog2 y" by (simp add: powi2_less_iff)
    then have ee: "ex \<le> ey" by (simp add: ex_def ey_def)
    show ?thesis
    proof (cases "ex = ey")
      case True
      have "of_int kx = x / 2 powi ey" by (simp add: xk True)
      also have "\<dots> \<le> y / 2 powi ey" using xy by (simp add: divide_right_mono)
      finally have "kx \<le> ky" unfolding ky_def by (rule round_even_ge)
      then have "(of_int kx :: rat) \<le> of_int ky" by (simp only: of_int_le_iff)
      then show ?thesis by (simp add: xk r_def True mult_right_mono)
    next
      case False
      then have lt: "ex < ey" using ee by simp
      then have ey: "ey = ilog2 y - 52" and l2: "ilog2 x + 1 \<le> ilog2 y"
        by (auto simp: ex_def ey_def)
      have "of_int (2 ^ 52) = (2::rat) powi (ilog2 y) / 2 powi ey"
        by (simp add: ey powi2_diff[symmetric])
      also have "\<dots> \<le> y / 2 powi ey"
        using ilog2_bounds(1)[OF ypos] by (simp add: divide_right_mono)
      finally have "2 ^ 52 \<le> ky" unfolding ky_def by (rule round_even_ge)
      then have "(of_int (2 ^ 52) :: rat) \<le> of_int ky" by (simp only: of_int_le_iff)
      then have "2 ^ 52 * 2 powi ey \<le> r" by (simp add: r_def mult_right_mono)
      moreover have "(2::rat) ^ 52 * 2 powi ey = 2 powi (ilog2 y)"
        by (simp add: ey powi2_diff)
      moreover have "(2::rat) powi (ilog2 x + 1) \<le> 2 powi (ilog2 y)" using l2 by (rule powi2_mono)
      ultimately show ?thesis using ilog2_bounds(2)[OF xpos] by linarith
    qed
  qed
  then show ?thesis using x0 md by (auto simp: rd)
qed

lemma round_double_near:
  assumes lo: "2 powi l \<le> q" and hi: "q < 2 powi (l + 1)" and e: "e = max (l - 52) (- 1074)"
    and near: "\<bar>q / 2 powi e - of_int m\<bar> < 1 / 2" and rng: "of_int m * 2 powi e \<le> max_double"
  shows "round_double q = Fin (of_int m * 2 powi e)"
proof -
  have pos: "0 < q" using lo powi2_pos[of l] by linarith
  have l: "ilog2 \<bar>q\<bar> = l" using pos ilog2_unique[OF lo hi] by simp
  have k: "round_even (q / 2 powi e) = m" using near by (rule round_even_near)
  have "of_int 0 \<le> q / 2 powi e" using pos by simp
  then have "0 \<le> round_even (q / 2 powi e)" by (rule round_even_ge)
  then have "(0::rat) \<le> of_int m * 2 powi e" using k by simp
  moreover have "0 \<le> max_double" by (simp add: max_double_def)
  ultimately show ?thesis
    using pos rng unfolding round_double_def Let_def l e[symmetric] k by auto
qed

lemma d105: "round_double (105 / 100) = Fin (4728779608739021 / 2 ^ 52)"
  using round_double_near[of 0 "105 / 100" "- 52" 4728779608739021]
  by (simp add: max_double_def)

lemma d095: "round_double (95 / 100) = Fin (8556839292003942 / 2 ^ 53)"
  using round_double_near[of "- 1" "95 / 100" "- 53" 8556839292003942]
  by (simp add: max_double_def)

section \<open>Values of the literals\<close>

lemma round_double_0: "round_double 0 = Fin 0"
  by (simp add: round_double_def)

lemma round_double_of_int:
  assumes "\<bar>m\<bar> < 2 ^ 53"
  shows "round_double (of_int m) = Fin (of_int m)"
proof -
  have "\<bar>m\<bar> \<le> 2 ^ 53 - 1" using assms by simp
  then have "(of_int \<bar>m\<bar> :: rat) \<le> of_int (2 ^ 53 - 1)" by (simp only: of_int_le_iff)
  then have "\<bar>of_int m :: rat\<bar> \<le> 2 ^ 53 - 1" by simp
  also have "\<dots> \<le> max_double" by (simp add: max_double_def)
  finally have r: "\<bar>of_int m :: rat\<bar> \<le> max_double" .
  show ?thesis
    by (rule round_double_exact[where m = m and ?e0.0 = 0]) (use assms r in simp_all)
qed

lemma d_1_0_value: "d_1_0 = Fin 1"
  using round_double_of_int[of 1] by (simp add: d_1_0_def)

lemma double_of_size_0: "double_of_size 0 = Fin 0"
  by (simp add: double_of_size_def round_double_0)

section \<open>An all-zero bank\<close>

lemma replicate_update_same: "(replicate n x)[i := x] = replicate n x"
  by (induction n arbitrary: i) (auto split: nat.split)

lemma snapshot_body_fresh:
  assumes "GetRead i s = 0" and "GetWrite i s = 0" and "i < n"
  shows "snapshot_body s i (fresh_snapshot n) = fresh_snapshot n"
  using assms by (simp add: snapshot_body_def fresh_snapshot_def replicate_update_same)

lemma fold_snapshot_fresh:
  assumes "\<forall>i<n. GetRead i s = 0 \<and> GetWrite i s = 0" and "\<forall>i\<in>set xs. i < n"
  shows "fold (snapshot_body s) xs (fresh_snapshot n) = fresh_snapshot n"
  using assms(2) by (induction xs) (simp_all add: snapshot_body_fresh assms(1))

lemma take_snapshot_zero:
  assumes "\<forall>i<n. GetRead i s = 0 \<and> GetWrite i s = 0"
  shows "take_snapshot n s = fresh_snapshot n"
  unfolding take_snapshot_def by (rule fold_snapshot_fresh[OF assms]) simp

lemma left_fraction_zero:
  assumes "k - 1 < n"
  shows "left_fraction (replicate n 0) 0 k = NaN"
  using assms by (simp add: left_fraction_def double_of_size_0 d_1_0_value round_double_0)

lemma skew_body_fresh:
  assumes "k - 1 < n"
  shows "skew_body (fresh_snapshot n) k best = best"
  using assms
  by (cases best) (simp add: skew_body_def fresh_snapshot_def left_fraction_zero dgreater_def)

lemma skew_loop_fresh: "k \<le> n \<Longrightarrow> skew_loop (fresh_snapshot n) k best = best"
proof (induction k arbitrary: best)
  case 0
  then show ?case by simp
next
  case (Suc k)
  then show ?case by (simp add: skew_body_fresh)
qed

lemma balance_body_fresh:
  assumes "k - 1 < n"
  shows "balance_body (fresh_snapshot n) k best = best"
  using assms by (simp add: balance_body_def fresh_snapshot_def left_fraction_zero)

lemma balance_loop_fresh: "k \<le> n \<Longrightarrow> balance_loop (fresh_snapshot n) k best = best"
proof (induction k arbitrary: best)
  case 0
  then show ?case by simp
next
  case (Suc k)
  then show ?case by (simp add: balance_body_fresh)
qed

lemma ComputeSplitIndex_zero:
  assumes "\<forall>i<n. GetRead i s = 0 \<and> GetWrite i s = 0"
  shows "ComputeSplitIndex n s = n"
  by (simp add: ComputeSplitIndex_def take_snapshot_zero[OF assms] skew_pass_def
      skew_loop_fresh balance_loop_fresh)

lemma ComputeSplitIndex_disabled: "\<not> Enabled s \<Longrightarrow> ComputeSplitIndex n s = n"
  by (rule ComputeSplitIndex_zero) (simp add: GetRead_def GetWrite_def)


section \<open>The range of the split index\<close>

lemma skew_body_range:
  "fst (skew_body a k best) = fst best \<or> fst (skew_body a k best) = k"
  by (cases best) (simp add: skew_body_def Let_def)

lemma skew_loop_range:
  "fst (skew_loop a k best) = fst best \<or> (1 \<le> fst (skew_loop a k best) \<and> fst (skew_loop a k best) \<le> k)"
proof (induction k arbitrary: best)
  case 0
  then show ?case by simp
next
  case (Suc k)
  from Suc.IH[of "skew_body a (Suc k) best"] skew_body_range[of a "Suc k" best]
  show ?case by auto
qed

lemma balance_body_range:
  "balance_body a k best = best \<or> balance_body a k best = k"
  by (simp add: balance_body_def Let_def)

lemma balance_loop_range:
  "balance_loop a k best = best \<or> (1 \<le> balance_loop a k best \<and> balance_loop a k best \<le> k)"
proof (induction k arbitrary: best)
  case 0
  then show ?case by simp
next
  case (Suc k)
  from Suc.IH[of "balance_body a (Suc k) best"] balance_body_range[of a "Suc k" best]
  show ?case by auto
qed

lemma ComputeSplitIndex_range:
  assumes "0 < n"
  shows "1 \<le> ComputeSplitIndex n s" and "ComputeSplitIndex n s \<le> n"
proof -
  define a where "a = take_snapshot n s"
  define b where "b = fst (skew_pass n a)"
  have b: "b = n \<or> (1 \<le> b \<and> b \<le> n - 1)"
    unfolding b_def skew_pass_def using skew_loop_range[of a "n - 1"] by fastforce
  have c: "ComputeSplitIndex n s = (if b = n then balance_loop a (n - 1) b else b)"
    by (simp add: ComputeSplitIndex_def Let_def a_def b_def)
  show "1 \<le> ComputeSplitIndex n s"
    using assms b balance_loop_range[of a "n - 1" b] unfolding c by auto
  show "ComputeSplitIndex n s \<le> n"
    using assms b balance_loop_range[of a "n - 1" b] unfolding c by auto
qed

section \<open>RecomputeSplit\<close>

lemma current_split_ResetGlobal: "current_split (ResetGlobal s) = current_split s"
  by (simp add: ResetGlobal_def)

lemma RecomputeSplit_eq:
  "RecomputeSplit n s =
     (ComputeSplitIndex n s \<noteq> current_split s,
      (ResetGlobal s)\<lparr>current_split := ComputeSplitIndex n s\<rparr>)"
  by (simp add: RecomputeSplit_def Let_def current_split_ResetGlobal)

section \<open>Evaluating the two scenarios\<close>

lemma upt_0_4: "[0..<4] = [0, 1, 2, 3]"
  by (simp add: upt_rec)

lemma snapshot_skewed:
  assumes "Enabled s" and "read_counters (global_counters s) = [10, 10, 10, 10]"
    and "write_counters (global_counters s) = [0, 0, 40, 40]"
  shows "take_snapshot 4 s =
    \<lparr>read_freq = [10, 10, 10, 10], write_freq = [0, 0, 40, 40],
     read_psum = [10, 20, 30, 40], write_psum = [0, 0, 40, 80],
     read_total = 40, write_total = 80\<rparr>"
  by (simp add: take_snapshot_def upt_0_4 snapshot_body_def fresh_snapshot_def GetRead_def
      GetWrite_def assms eval_nat_numeral)

lemma round_double_dyadic:
  assumes "\<bar>m\<bar> < 2 ^ 53" and "k \<le> 1074"
  shows "round_double (of_int m / 2 ^ k) = Fin (of_int m / 2 ^ k)"
proof -
  have p: "(2::rat) powi (- int k) = 1 / 2 ^ k"
    by (simp add: power_int_minus divide_inverse)
  have q: "(of_int m / 2 ^ k :: rat) = of_int m * 2 powi (- int k)" by (simp add: p)
  have "\<bar>m\<bar> \<le> 2 ^ 53 - 1" using assms by simp
  then have "(of_int \<bar>m\<bar> :: rat) \<le> of_int (2 ^ 53 - 1)" by (simp only: of_int_le_iff)
  then have m: "\<bar>of_int m :: rat\<bar> \<le> 2 ^ 53 - 1" by simp
  have "\<bar>of_int m / 2 ^ k :: rat\<bar> = \<bar>of_int m\<bar> / 2 ^ k" by simp
  also have "\<dots> \<le> \<bar>of_int m\<bar> / 1"
    by (rule divide_left_mono) simp_all
  also have "\<dots> \<le> max_double" using m by (simp add: max_double_def)
  finally have r: "\<bar>of_int m / 2 ^ k :: rat\<bar> \<le> max_double" .
  show ?thesis
    by (rule round_double_exact[where m = m and ?e0.0 = "- int k"]) (use assms q r in simp_all)
qed

lemma ddiv_dmul_one:
  assumes "round_double a = Fin a" and "b \<noteq> 0"
  shows "ddiv (dmul (Fin a) (Fin 1)) (Fin b) = round_double (a / b)"
  using assms by simp

lemma left_fraction_small:
  assumes "uint (psum ! (k - 1)) < 2 ^ 53" and "uint t < 2 ^ 53" and "t \<noteq> 0"
  shows "left_fraction psum t k = round_double (of_int (uint (psum ! (k - 1))) / of_int (uint t))"
proof -
  define p where "p = psum ! (k - 1)"
  have 1: "double_of_size p = Fin (of_int (uint p))"
    unfolding double_of_size_def by (rule round_double_of_int) (use assms(1) p_def in simp)
  have 2: "double_of_size t = Fin (of_int (uint t))"
    unfolding double_of_size_def by (rule round_double_of_int) (use assms(2) in simp)
  have 3: "round_double (of_int (uint p)) = Fin (of_int (uint p))"
    by (rule round_double_of_int) (use assms(1) p_def in simp)
  have 4: "(of_int (uint t) :: rat) \<noteq> 0" using assms(3) by (simp add: unsigned_eq_0_iff)
  show ?thesis
    unfolding left_fraction_def p_def[symmetric] 1 2 d_1_0_value by (rule ddiv_dmul_one[OF 3 4])
qed

lemma rd_quarter: "round_double (1 / 4) = Fin (1 / 4)"
  using round_double_dyadic[of 1 2] by simp

lemma rd_half: "round_double (1 / 2) = Fin (1 / 2)"
  using round_double_dyadic[of 1 1] by simp

lemma rd_three_quarters: "round_double (3 / 4) = Fin (3 / 4)"
  using round_double_dyadic[of 3 2] by simp

lemma rd_one: "round_double 1 = Fin 1"
  using round_double_of_int[of 1] by simp

lemma rd_minus_quarter: "round_double (- (1 / 4)) = Fin (- (1 / 4))"
  using round_double_dyadic[of "- 1" 2] by simp

lemma rd_minus_half: "round_double (- (1 / 2)) = Fin (- (1 / 2))"
  using round_double_dyadic[of "- 1" 1] by simp

lemma d_0_5_value: "d_0_5 = Fin (1 / 2)"
  by (simp add: d_0_5_def rd_half)

lemma d_1_05_value: "d_1_05 = Fin (4728779608739021 / 4503599627370496)"
  using d105 by (simp add: d_1_05_def)

lemma d_0_95_value: "d_0_95 = Fin (8556839292003942 / 9007199254740992)"
  using d095 by (simp add: d_0_95_def)

lemma rd_105_quarter:
  "round_double (4728779608739021 / 18014398509481984) = Fin (4728779608739021 / 18014398509481984)"
  using round_double_dyadic[of 4728779608739021 54] by simp

lemma rd_105_half:
  "round_double (4728779608739021 / 9007199254740992) = Fin (4728779608739021 / 9007199254740992)"
  using round_double_dyadic[of 4728779608739021 53] by simp

lemmas rd_values = round_double_0 rd_quarter rd_half rd_three_quarters rd_one rd_minus_quarter
  rd_minus_half rd_105_quarter rd_105_half

lemma fractions_skewed:
  "left_fraction [10, 20, 30, 40] 40 4 = Fin 1"
  "left_fraction [10, 20, 30, 40] 40 3 = Fin (3 / 4)"
  "left_fraction [10, 20, 30, 40] 40 2 = Fin (1 / 2)"
  "left_fraction [10, 20, 30, 40] 40 (Suc 0) = Fin (1 / 4)"
  "left_fraction [0, 0, 40, 80] 80 4 = Fin 1"
  "left_fraction [0, 0, 40, 80] 80 3 = Fin (1 / 2)"
  "left_fraction [0, 0, 40, 80] 80 2 = Fin 0"
  "left_fraction [0, 0, 40, 80] 80 (Suc 0) = Fin 0"
  by (simp_all add: left_fraction_small rd_values)

lemma skew_loop_3:
  "skew_loop a 3 best = skew_body a 1 (skew_body a 2 (skew_body a 3 best))"
  by (simp add: numeral_3_eq_3 numeral_2_eq_2)

lemma balance_loop_3:
  "balance_loop a 3 best = balance_body a 1 (balance_body a 2 (balance_body a 3 best))"
  by (simp add: numeral_3_eq_3 numeral_2_eq_2)

lemma skew_pass_skewed:
  "skew_pass 4
     \<lparr>read_freq = [10, 10, 10, 10], write_freq = [0, 0, 40, 40],
      read_psum = [10, 20, 30, 40], write_psum = [0, 0, 40, 80],
      read_total = 40, write_total = 80\<rparr> = (2, Fin (1 / 2), Fin 0)"
  by (simp add: skew_pass_def skew_loop_3 skew_body_def fractions_skewed rd_values d_1_05_value
      dgreater_def)

lemma ComputeSplitIndex_skewed:
  assumes "Enabled s" and "read_counters (global_counters s) = [10, 10, 10, 10]"
    and "write_counters (global_counters s) = [0, 0, 40, 40]"
  shows "ComputeSplitIndex 4 s = 2"
  by (simp add: ComputeSplitIndex_def snapshot_skewed[OF assms] skew_pass_skewed)

lemma snapshot_uniform:
  assumes "Enabled s" and "read_counters (global_counters s) = [5, 5, 5, 5]"
    and "write_counters (global_counters s) = [5, 5, 5, 5]"
  shows "take_snapshot 4 s =
    \<lparr>read_freq = [5, 5, 5, 5], write_freq = [5, 5, 5, 5],
     read_psum = [5, 10, 15, 20], write_psum = [5, 10, 15, 20],
     read_total = 20, write_total = 20\<rparr>"
  by (simp add: take_snapshot_def upt_0_4 snapshot_body_def fresh_snapshot_def GetRead_def
      GetWrite_def assms eval_nat_numeral)

lemma fractions_uniform:
  "left_fraction [5, 10, 15, 20] 20 4 = Fin 1"
  "left_fraction [5, 10, 15, 20] 20 3 = Fin (3 / 4)"
  "left_fraction [5, 10, 15, 20] 20 2 = Fin (1 / 2)"
  "left_fraction [5, 10, 15, 20] 20 (Suc 0) = Fin (1 / 4)"
  by (simp_all add: left_fraction_small rd_values)

lemma skew_pass_uniform:
  "skew_pass 4
     \<lparr>read_freq = [5, 5, 5, 5], write_freq = [5, 5, 5, 5],
      read_psum = [5, 10, 15, 20], write_psum = [5, 10, 15, 20],
      read_total = 20, write_total = 20\<rparr> = (4, Fin 1, Fin 1)"
  by (simp add: skew_pass_def skew_loop_3 skew_body_def fractions_uniform rd_values d_1_05_value
      dgreater_def)

lemma rd_095_half:
  "round_double (4278419646001971 / 9007199254740992) = Fin (4278419646001971 / 9007199254740992)"
  using round_double_dyadic[of 4278419646001971 53] by simp

lemma rd_095_quarter:
  "round_double (4278419646001971 / 18014398509481984) = Fin (4278419646001971 / 18014398509481984)"
  using round_double_dyadic[of 4278419646001971 54] by simp

lemma balance_uniform:
  "balance_loop
     \<lparr>read_freq = [5, 5, 5, 5], write_freq = [5, 5, 5, 5],
      read_psum = [5, 10, 15, 20], write_psum = [5, 10, 15, 20],
      read_total = 20, write_total = 20\<rparr> 3 4 = 2"
  by (simp add: balance_loop_3 balance_body_def fractions_uniform rd_values d_0_95_value
      d_0_5_value rd_095_half rd_095_quarter)

lemma ComputeSplitIndex_uniform:
  assumes "Enabled s" and "read_counters (global_counters s) = [5, 5, 5, 5]"
    and "write_counters (global_counters s) = [5, 5, 5, 5]"
  shows "ComputeSplitIndex 4 s = 2"
  by (simp add: ComputeSplitIndex_def snapshot_uniform[OF assms] skew_pass_uniform balance_uniform)

section \<open>The two worked scenarios\<close>

text \<open>
  C1. With four columns, the feature enabled, read counts \<open>[10,10,10,10]\<close> and write counts
  \<open>[0,0,40,40]\<close> in the global bank, \<^verbatim>\<open>ComputeSplitIndex\<close> returns 2: the first scan ends
  at the candidate 2 with read fraction \<open>0.5\<close> and write fraction \<open>0.0\<close>, whose \<open>diff\<close> is
  \<open>0.5\<close>, while the candidates 4, 3 and 1 have the \<open>diff\<close> values \<open>0\<close>, \<open>0.25\<close> and \<open>0.25\<close>.
\<close>

theorem skewed_scenario_returns_2:
  assumes "Enabled s" and "read_counters (global_counters s) = [10, 10, 10, 10]"
    and "write_counters (global_counters s) = [0, 0, 40, 40]"
  shows "ComputeSplitIndex 4 s = 2 \<and>
    skew_pass 4 (take_snapshot 4 s) = (2, Fin (1 / 2), Fin 0) \<and>
    skew_diff (take_snapshot 4 s) 2 = Fin (1 / 2) \<and>
    skew_diff (take_snapshot 4 s) 4 = Fin 0 \<and>
    skew_diff (take_snapshot 4 s) 3 = Fin (1 / 4) \<and>
    skew_diff (take_snapshot 4 s) (Suc 0) = Fin (1 / 4)"
  by (simp add: ComputeSplitIndex_skewed[OF assms] snapshot_skewed[OF assms] skew_pass_skewed
      skew_diff_def fractions_skewed rd_values)

theorem skewed_scenario_returns_2_witness:
  "Enabled skewed_bank \<and> read_counters (global_counters skewed_bank) = [10, 10, 10, 10] \<and>
   write_counters (global_counters skewed_bank) = [0, 0, 40, 40] \<and>
   ComputeSplitIndex 4 skewed_bank = 2"
  using skewed_scenario_returns_2[of skewed_bank] by (simp add: skewed_bank_def)

text \<open>
  C2. With four columns, the feature enabled, and read and write counts both
  \<open>[5,5,5,5]\<close>, \<^verbatim>\<open>ComputeSplitIndex\<close> returns 2: every \<open>diff\<close> of the first scan is 0, so the
  scan leaves the best candidate at 4, and the write-balance scan then ends at the
  candidate 2, whose write fraction is exactly \<open>0.5\<close>.
\<close>

theorem uniform_scenario_returns_2:
  assumes "Enabled s" and "read_counters (global_counters s) = [5, 5, 5, 5]"
    and "write_counters (global_counters s) = [5, 5, 5, 5]"
  shows "ComputeSplitIndex 4 s = 2 \<and>
    skew_diff (take_snapshot 4 s) 4 = Fin 0 \<and>
    skew_diff (take_snapshot 4 s) 3 = Fin 0 \<and>
    skew_diff (take_snapshot 4 s) 2 = Fin 0 \<and>
    skew_diff (take_snapshot 4 s) (Suc 0) = Fin 0 \<and>
    fst (skew_pass 4 (take_snapshot 4 s)) = 4 \<and>
    balance_loop (take_snapshot 4 s) 3 4 = 2 \<and>
    left_fraction (write_psum (take_snapshot 4 s)) (write_total (take_snapshot 4 s)) 2 = Fin (1 / 2)"
  by (simp add: ComputeSplitIndex_uniform[OF assms] snapshot_uniform[OF assms] skew_pass_uniform
      balance_uniform skew_diff_def fractions_uniform rd_values)

theorem uniform_scenario_returns_2_witness:
  "Enabled uniform_bank \<and> read_counters (global_counters uniform_bank) = [5, 5, 5, 5] \<and>
   write_counters (global_counters uniform_bank) = [5, 5, 5, 5] \<and>
   ComputeSplitIndex 4 uniform_bank = 2"
  using uniform_scenario_returns_2[of uniform_bank] by (simp add: uniform_bank_def)

section \<open>The published split\<close>

text \<open>
  C8. Right after initialisation the stored split is the sentinel 0 and \<^verbatim>\<open>CurrentSplit\<close>
  returns \<^verbatim>\<open>COLCOUNT\<close>. In general \<^verbatim>\<open>CurrentSplit\<close> returns the stored split, which is the
  value the last \<^verbatim>\<open>RecomputeSplit\<close> published, except that a stored 0 reads as
  \<^verbatim>\<open>COLCOUNT\<close>.
\<close>

theorem sentinel_semantics:
  "current_split (INITIALIZE_ADAPTER n mt en) = 0 \<and>
   CurrentSplit n (INITIALIZE_ADAPTER n mt en) = n \<and>
   CurrentSplit n s = (if current_split s = 0 then n else current_split s) \<and>
   current_split (snd (RecomputeSplit n s)) = ComputeSplitIndex n s"
  by (simp add: INITIALIZE_ADAPTER_def CurrentSplit_def RecomputeSplit_eq)

theorem sentinel_semantics_witness:
  "current_split (INITIALIZE_ADAPTER 4 2 True) = 0 \<and>
   CurrentSplit 4 (INITIALIZE_ADAPTER 4 2 True) = 4 \<and>
   CurrentSplit 4 (snd (RecomputeSplit 4 skewed_bank)) = 2"
proof -
  have "ComputeSplitIndex 4 skewed_bank = 2"
    by (rule ComputeSplitIndex_skewed) (simp_all add: skewed_bank_def)
  then show ?thesis
    using sentinel_semantics[of 4 2 True "snd (RecomputeSplit 4 skewed_bank)"]
      sentinel_semantics[of 4 2 True skewed_bank]
    by simp
qed

section \<open>What the calls do to the stored split\<close>

lemma current_split_CountRead:
  "CountRead n tid index count s = Some s' \<Longrightarrow> current_split s' = current_split s"
  by (auto simp: CountRead_def Let_def split: if_splits)

lemma current_split_CountWrite:
  "CountWrite n tid index count s = Some s' \<Longrightarrow> current_split s' = current_split s"
  by (auto simp: CountWrite_def Let_def split: if_splits)

lemma current_split_Commit: "current_split (Commit n threadid s) = current_split s"
  by (simp add: Commit_def)

lemma current_split_ResetThread: "current_split (ResetThread tid s) = current_split s"
  by (simp add: ResetThread_def)

lemma current_split_RecomputeSplit:
  "current_split (snd (RecomputeSplit n s)) = ComputeSplitIndex n s"
  by (simp add: RecomputeSplit_eq)

lemma perform_split_le:
  assumes "0 < n" and "current_split s \<le> n" and "perform n c s = Some s'"
  shows "current_split s' \<le> n"
proof (cases c)
  case (CountReadCall tid index count)
  then show ?thesis using assms current_split_CountRead by fastforce
next
  case (CountWriteCall tid index count)
  then show ?thesis using assms current_split_CountWrite by fastforce
next
  case (CommitCall threadid)
  then show ?thesis using assms by (auto simp: current_split_Commit)
next
  case RecomputeSplitCall
  then show ?thesis
    using assms ComputeSplitIndex_range(2)[OF assms(1), of s]
    by (auto simp: current_split_RecomputeSplit)
next
  case ResetGlobalCall
  then show ?thesis using assms by (auto simp: current_split_ResetGlobal)
next
  case (ResetThreadCall tid)
  then show ?thesis using assms by (auto simp: current_split_ResetThread)
qed

lemma run_split_le:
  assumes "0 < n"
  shows "current_split s \<le> n \<Longrightarrow> run n cs s = Some s' \<Longrightarrow> current_split s' \<le> n"
proof (induction cs arbitrary: s)
  case Nil
  then show ?case by simp
next
  case (Cons c cs)
  from Cons.prems(2) obtain s1 where 1: "perform n c s = Some s1" and 2: "run n cs s1 = Some s'"
    by (auto split: option.splits)
  have "current_split s1 \<le> n" using perform_split_le[OF assms Cons.prems(1) 1] .
  then show ?case using Cons.IH 2 by blast
qed

lemma CurrentSplit_range:
  assumes "0 < n" and "current_split s \<le> n"
  shows "1 \<le> CurrentSplit n s" and "CurrentSplit n s \<le> n"
  using assms by (auto simp: CurrentSplit_def)

lemma perform_defined: "call_ok n mt c \<Longrightarrow> \<exists>s'. perform n c s = Some s'"
  by (cases c) (auto simp: CountRead_def CountWrite_def Let_def)

lemma run_defined: "list_all (call_ok n mt) cs \<Longrightarrow> \<exists>s'. run n cs s = Some s'"
proof (induction cs arbitrary: s)
  case Nil
  then show ?case by simp
next
  case (Cons c cs)
  then obtain s1 where "perform n c s = Some s1" using perform_defined[of n mt c s] by auto
  then show ?case using Cons by simp
qed

section \<open>The range of the split\<close>

text \<open>
  C9. With at least one column, \<^verbatim>\<open>ComputeSplitIndex\<close> returns a value between 1 and
  \<^verbatim>\<open>COLCOUNT\<close> for every content of the global bank, and so does \<^verbatim>\<open>CurrentSplit\<close> in
  every state that a sequence of calls reaches from the initial state.
\<close>

theorem split_range:
  assumes "0 < n"
  shows "1 \<le> ComputeSplitIndex n s \<and> ComputeSplitIndex n s \<le> n \<and>
    (\<forall>cs s'. run n cs (INITIALIZE_ADAPTER n mt en) = Some s' \<longrightarrow>
       1 \<le> CurrentSplit n s' \<and> CurrentSplit n s' \<le> n)"
proof -
  have "current_split (INITIALIZE_ADAPTER n mt en) \<le> n" by (simp add: INITIALIZE_ADAPTER_def)
  then have "\<forall>cs s'. run n cs (INITIALIZE_ADAPTER n mt en) = Some s' \<longrightarrow> current_split s' \<le> n"
    using run_split_le[OF assms] by blast
  then show ?thesis
    using ComputeSplitIndex_range[OF assms, of s] CurrentSplit_range[OF assms] by blast
qed

theorem split_range_witness:
  "(0::nat) < 4 \<and> 1 \<le> ComputeSplitIndex 4 uniform_bank \<and> ComputeSplitIndex 4 uniform_bank \<le> 4 \<and>
   (\<exists>s'. run 4 [CountReadCall 0 1 3, CommitCall 0, RecomputeSplitCall]
            (INITIALIZE_ADAPTER 4 2 True) = Some s' \<and>
         1 \<le> CurrentSplit 4 s' \<and> CurrentSplit 4 s' \<le> 4)"
proof -
  have n: "(0::nat) < 4" by simp
  have "\<exists>s'. run 4 [CountReadCall 0 1 3, CommitCall 0, RecomputeSplitCall]
     (INITIALIZE_ADAPTER 4 2 True) = Some s'"
    by (rule run_defined[where mt = 2]) simp
  then obtain s' where r: "run 4 [CountReadCall 0 1 3, CommitCall 0, RecomputeSplitCall]
     (INITIALIZE_ADAPTER 4 2 True) = Some s'" by blast
  have a: "1 \<le> ComputeSplitIndex 4 uniform_bank \<and> ComputeSplitIndex 4 uniform_bank \<le> 4"
    using split_range[OF n, of uniform_bank 2 True] by blast
  have "1 \<le> CurrentSplit 4 s' \<and> CurrentSplit 4 s' \<le> 4"
    using split_range[OF n, of uniform_bank 2 True] r by blast
  then have "\<exists>s'. run 4 [CountReadCall 0 1 3, CommitCall 0, RecomputeSplitCall]
            (INITIALIZE_ADAPTER 4 2 True) = Some s' \<and>
         1 \<le> CurrentSplit 4 s' \<and> CurrentSplit 4 s' \<le> 4" using r by blast
  then show ?thesis using n a by (intro conjI) simp_all
qed

section \<open>The changed flag\<close>



section \<open>Resetting\<close>

lemma Reset_sized: "sized_CounterSet n cs \<Longrightarrow> Reset cs = zero_CounterSet n"
  by (simp add: Reset_def zero_CounterSet_def sized_CounterSet_def map_replicate_const)

lemma ResetGlobal_enabled:
  "Enabled s \<Longrightarrow> sized n mt s \<Longrightarrow> global_counters (ResetGlobal s) = zero_CounterSet n"
  by (simp add: ResetGlobal_def sized_def Reset_sized)

lemma Enabled_ResetGlobal: "Enabled (ResetGlobal s) = Enabled s"
  by (simp add: ResetGlobal_def)

lemma GetRead_ResetGlobal:
  assumes "sized n mt s" and "i < n"
  shows "GetRead i (ResetGlobal s) = 0"
proof (cases "Enabled s")
  case True
  then show ?thesis
    using assms(2) ResetGlobal_enabled[OF True assms(1)]
    by (simp add: GetRead_def zero_CounterSet_def)
next
  case False
  then show ?thesis by (simp add: GetRead_def Enabled_ResetGlobal)
qed

lemma GetWrite_ResetGlobal:
  assumes "sized n mt s" and "i < n"
  shows "GetWrite i (ResetGlobal s) = 0"
proof (cases "Enabled s")
  case True
  then show ?thesis
    using assms(2) ResetGlobal_enabled[OF True assms(1)]
    by (simp add: GetWrite_def zero_CounterSet_def)
next
  case False
  then show ?thesis by (simp add: GetWrite_def Enabled_ResetGlobal)
qed

lemma GetRead_current_split_update [simp]:
  "GetRead i (s\<lparr>current_split := k\<rparr>) = GetRead i s"
  by (simp add: GetRead_def)

lemma GetWrite_current_split_update [simp]:
  "GetWrite i (s\<lparr>current_split := k\<rparr>) = GetWrite i s"
  by (simp add: GetWrite_def)

lemma RecomputeSplit_reads_zero:
  assumes "sized n mt s" and "i < n"
  shows "GetRead i (snd (RecomputeSplit n s)) = 0" and "GetWrite i (snd (RecomputeSplit n s)) = 0"
  using assms by (simp_all add: RecomputeSplit_eq GetRead_ResetGlobal GetWrite_ResetGlobal)

lemma RecomputeSplit_twice:
  assumes "sized n mt s"
  shows "ComputeSplitIndex n (snd (RecomputeSplit n s)) = n"
    and "fst (RecomputeSplit n (snd (RecomputeSplit n s))) = (ComputeSplitIndex n s \<noteq> n)"
    and "current_split (snd (RecomputeSplit n (snd (RecomputeSplit n s)))) = n"
proof -
  show 1: "ComputeSplitIndex n (snd (RecomputeSplit n s)) = n"
    by (rule ComputeSplitIndex_zero) (simp add: RecomputeSplit_reads_zero[OF assms])
  show "fst (RecomputeSplit n (snd (RecomputeSplit n s))) = (ComputeSplitIndex n s \<noteq> n)"
    unfolding RecomputeSplit_eq[of n "snd (RecomputeSplit n s)"] 1
    by (auto simp: RecomputeSplit_eq)
  show "current_split (snd (RecomputeSplit n (snd (RecomputeSplit n s)))) = n"
    unfolding RecomputeSplit_eq[of n "snd (RecomputeSplit n s)"] 1 by simp
qed

lemma sized_skewed_bank: "sized 4 2 skewed_bank"
  by (simp add: sized_def skewed_bank_def sized_CounterSet_def zero_CounterSet_def
      numeral_2_eq_2)

lemma sized_uniform_bank: "sized 4 2 uniform_bank"
  by (simp add: sized_def uniform_bank_def sized_CounterSet_def zero_CounterSet_def
      numeral_2_eq_2)

lemma sized_initial: "sized n mt (INITIALIZE_ADAPTER n mt en)"
  by (simp add: sized_def INITIALIZE_ADAPTER_def sized_CounterSet_def zero_CounterSet_def
      list_all_length)

section \<open>Recomputing the split\<close>

text \<open>
  C4, as the claim states it: a second \<^verbatim>\<open>RecomputeSplit\<close> right after the first does not
  change the split and returns false. On the skewed bank of the first scenario the first
  call publishes 2; the second call then computes over the zeroed bank, returns true and
  publishes 4.
\<close>

theorem recompute_twice_counterexample:
  "current_split (snd (RecomputeSplit 4 skewed_bank)) = 2 \<and>
   fst (RecomputeSplit 4 (snd (RecomputeSplit 4 skewed_bank))) = True \<and>
   current_split (snd (RecomputeSplit 4 (snd (RecomputeSplit 4 skewed_bank)))) = 4"
proof -
  have c: "ComputeSplitIndex 4 skewed_bank = 2"
    by (rule ComputeSplitIndex_skewed) (simp_all add: skewed_bank_def)
  show ?thesis
    using RecomputeSplit_twice[OF sized_skewed_bank] c by (simp add: RecomputeSplit_eq)
qed

text \<open>
  C4, amended. \<^verbatim>\<open>RecomputeSplit\<close> calls \<^verbatim>\<open>ComputeSplitIndex\<close>, then \<^verbatim>\<open>ResetGlobal\<close>, then
  stores the computed value, and returns whether that value differs from the split stored
  before. Whatever the computed value is, every \<^verbatim>\<open>GetRead\<close> and \<^verbatim>\<open>GetWrite\<close> returns 0
  afterwards, and with the feature enabled the global bank is all zero. A second call
  right after the first therefore computes \<^verbatim>\<open>COLCOUNT\<close> and publishes it; it returns false
  exactly when the first call had computed \<^verbatim>\<open>COLCOUNT\<close> too.
\<close>

theorem recompute_split_steps:
  assumes "sized n mt s"
  shows "RecomputeSplit n s =
      (ComputeSplitIndex n s \<noteq> current_split s,
       (ResetGlobal s)\<lparr>current_split := ComputeSplitIndex n s\<rparr>) \<and>
    (\<forall>i<n. GetRead i (snd (RecomputeSplit n s)) = 0 \<and> GetWrite i (snd (RecomputeSplit n s)) = 0) \<and>
    (Enabled s \<longrightarrow> global_counters (snd (RecomputeSplit n s)) = zero_CounterSet n) \<and>
    ComputeSplitIndex n (snd (RecomputeSplit n s)) = n \<and>
    fst (RecomputeSplit n (snd (RecomputeSplit n s))) = (ComputeSplitIndex n s \<noteq> n) \<and>
    current_split (snd (RecomputeSplit n (snd (RecomputeSplit n s)))) = n"
proof -
  have "Enabled s \<longrightarrow> global_counters (snd (RecomputeSplit n s)) = zero_CounterSet n"
    using ResetGlobal_enabled[OF _ assms] by (simp add: RecomputeSplit_eq)
  then show ?thesis
    using RecomputeSplit_twice[OF assms] RecomputeSplit_reads_zero[OF assms] RecomputeSplit_eq[of n s]
    by blast
qed

theorem recompute_split_steps_witness:
  "sized 4 2 uniform_bank \<and> Enabled uniform_bank \<and>
   fst (RecomputeSplit 4 uniform_bank) = True \<and>
   current_split (snd (RecomputeSplit 4 uniform_bank)) = 2 \<and>
   GetRead 3 (snd (RecomputeSplit 4 uniform_bank)) = 0 \<and>
   GetWrite 3 (snd (RecomputeSplit 4 uniform_bank)) = 0 \<and>
   global_counters (snd (RecomputeSplit 4 uniform_bank)) = zero_CounterSet 4 \<and>
   fst (RecomputeSplit 4 (snd (RecomputeSplit 4 uniform_bank))) = True \<and>
   current_split (snd (RecomputeSplit 4 (snd (RecomputeSplit 4 uniform_bank)))) = 4"
proof -
  have c: "ComputeSplitIndex 4 uniform_bank = 2"
    by (rule ComputeSplitIndex_uniform) (simp_all add: uniform_bank_def)
  have e: "Enabled uniform_bank" and z: "current_split uniform_bank = 0"
    by (simp_all add: uniform_bank_def)
  note t = recompute_split_steps[OF sized_uniform_bank]
  have 1: "RecomputeSplit 4 uniform_bank =
      (ComputeSplitIndex 4 uniform_bank \<noteq> current_split uniform_bank,
       (ResetGlobal uniform_bank)\<lparr>current_split := ComputeSplitIndex 4 uniform_bank\<rparr>)"
    using t by blast
  have 2: "fst (RecomputeSplit 4 uniform_bank) = True"
    and 3: "current_split (snd (RecomputeSplit 4 uniform_bank)) = 2"
    unfolding 1 by (simp_all add: c z)
  have 4: "GetRead 3 (snd (RecomputeSplit 4 uniform_bank)) = 0 \<and>
      GetWrite 3 (snd (RecomputeSplit 4 uniform_bank)) = 0"
  proof -
    have "\<forall>i<4. GetRead i (snd (RecomputeSplit 4 uniform_bank)) = 0 \<and>
        GetWrite i (snd (RecomputeSplit 4 uniform_bank)) = 0" using t by blast
    then show ?thesis by simp
  qed
  have 5: "global_counters (snd (RecomputeSplit 4 uniform_bank)) = zero_CounterSet 4"
    using t e by blast
  have "fst (RecomputeSplit 4 (snd (RecomputeSplit 4 uniform_bank))) =
      (ComputeSplitIndex 4 uniform_bank \<noteq> 4)" using t by blast
  then have 6: "fst (RecomputeSplit 4 (snd (RecomputeSplit 4 uniform_bank))) = True"
    by (simp add: c)
  have 7: "current_split (snd (RecomputeSplit 4 (snd (RecomputeSplit 4 uniform_bank)))) = 4"
    using t by blast
  show ?thesis using sized_uniform_bank e 2 3 4 5 6 7 by blast
qed

section \<open>Committing\<close>

lemma upt_Suc_snoc: "[0..<Suc k] = [0..<k] @ [k]"
  by simp

lemma fold_Commit_body:
  assumes "length (read_counters g) = n" and "length (write_counters g) = n"
  shows "k \<le> n \<Longrightarrow>
    length (read_counters (fold (Commit_body bank) [0..<k] g)) = n \<and>
    length (write_counters (fold (Commit_body bank) [0..<k] g)) = n \<and>
    (\<forall>i<n. read_counters (fold (Commit_body bank) [0..<k] g) ! i =
        (if i < k then read_counters g ! i + read_counters bank ! i else read_counters g ! i) \<and>
      write_counters (fold (Commit_body bank) [0..<k] g) ! i =
        (if i < k then write_counters g ! i + write_counters bank ! i else write_counters g ! i))"
proof (induction k)
  case 0
  then show ?case using assms by simp
next
  case (Suc k)
  then have k: "k < n" and IH: "length (read_counters (fold (Commit_body bank) [0..<k] g)) = n \<and>
    length (write_counters (fold (Commit_body bank) [0..<k] g)) = n \<and>
    (\<forall>i<n. read_counters (fold (Commit_body bank) [0..<k] g) ! i =
        (if i < k then read_counters g ! i + read_counters bank ! i else read_counters g ! i) \<and>
      write_counters (fold (Commit_body bank) [0..<k] g) ! i =
        (if i < k then write_counters g ! i + write_counters bank ! i else write_counters g ! i))"
    by simp_all
  define g' where "g' = fold (Commit_body bank) [0..<k] g"
  have step: "fold (Commit_body bank) [0..<Suc k] g = Commit_body bank k g'"
    by (simp add: g'_def)
  show ?case
    unfolding step using IH k unfolding g'_def[symmetric]
    by (auto simp: Commit_body_def nth_list_update less_Suc_eq)
qed

lemma GetRead_Commit:
  assumes "Enabled s" and "sized n mt s" and "c < n"
  shows "GetRead c (Commit n t s) = GetRead c s + TGetRead t c s"
    and "GetWrite c (Commit n t s) = GetWrite c s + TGetWrite t c s"
proof -
  have l: "length (read_counters (global_counters s)) = n"
    "length (write_counters (global_counters s)) = n"
    using assms(2) by (simp_all add: sized_def sized_CounterSet_def)
  note f = fold_Commit_body[OF l, of n "thread_counters s ! t", simplified]
  show "GetRead c (Commit n t s) = GetRead c s + TGetRead t c s"
    using assms(1,3) f by (simp add: GetRead_def TGetRead_def Commit_def)
  show "GetWrite c (Commit n t s) = GetWrite c s + TGetWrite t c s"
    using assms(1,3) f by (simp add: GetWrite_def TGetWrite_def Commit_def)
qed

lemma thread_counters_Commit: "thread_counters (Commit n t s) = thread_counters s"
  by (simp add: Commit_def)

lemma Enabled_Commit: "Enabled (Commit n t s) = Enabled s"
  by (simp add: Commit_def)

lemma TGetRead_Commit: "TGetRead u c (Commit n t s) = TGetRead u c s"
  by (simp add: TGetRead_def Commit_def)

lemma TGetWrite_Commit: "TGetWrite u c (Commit n t s) = TGetWrite u c s"
  by (simp add: TGetWrite_def Commit_def)

lemma sized_Commit:
  assumes "sized n mt s"
  shows "sized n mt (Commit n t s)"
proof -
  have l: "length (read_counters (global_counters s)) = n"
    "length (write_counters (global_counters s)) = n"
    using assms by (simp_all add: sized_def sized_CounterSet_def)
  note f = fold_Commit_body[OF l, of n "thread_counters s ! t", simplified]
  show ?thesis using assms f by (simp add: sized_def sized_CounterSet_def Commit_def)
qed

text \<open>
  C6. \<^verbatim>\<open>Commit\<close> leaves every thread-local bank as it is, so a second \<^verbatim>\<open>Commit\<close> of the same
  thread with no \<^verbatim>\<open>ResetThread\<close> in between adds the same thread-local values to the
  global bank again: every global counter has grown by twice the thread's count.
\<close>

theorem commit_twice_double_counts:
  assumes "Enabled s" and "sized n mt s" and "c < n"
  shows "thread_counters (Commit n t s) = thread_counters s \<and>
    TGetRead t c (Commit n t s) = TGetRead t c s \<and>
    TGetWrite t c (Commit n t s) = TGetWrite t c s \<and>
    GetRead c (Commit n t s) = GetRead c s + TGetRead t c s \<and>
    GetWrite c (Commit n t s) = GetWrite c s + TGetWrite t c s \<and>
    GetRead c (Commit n t (Commit n t s)) = GetRead c s + 2 * TGetRead t c s \<and>
    GetWrite c (Commit n t (Commit n t s)) = GetWrite c s + 2 * TGetWrite t c s"
proof -
  have e: "Enabled (Commit n t s)" using assms(1) by (simp add: Enabled_Commit)
  have z: "sized n mt (Commit n t s)" using assms(2) by (rule sized_Commit)
  show ?thesis
    using GetRead_Commit[OF assms] GetRead_Commit[OF e z assms(3)]
    by (simp add: thread_counters_Commit TGetRead_Commit TGetWrite_Commit)
qed

lemma sized_busy_bank: "sized 4 2 busy_bank"
  by (simp add: sized_def busy_bank_def sized_CounterSet_def zero_CounterSet_def)

theorem commit_twice_double_counts_witness:
  "Enabled busy_bank \<and> sized 4 2 busy_bank \<and> (2::nat) < 4 \<and>
   thread_counters (Commit 4 0 busy_bank) = thread_counters busy_bank \<and>
   GetRead 2 (Commit 4 0 busy_bank) = 5 \<and>
   GetRead 2 (Commit 4 0 (Commit 4 0 busy_bank)) = 7"
proof -
  have e: "Enabled busy_bank" by (simp add: busy_bank_def)
  have c: "(2::nat) < 4" by simp
  have g: "GetRead 2 busy_bank = 3" and t: "TGetRead 0 2 busy_bank = 2"
    by (simp_all add: GetRead_def TGetRead_def busy_bank_def)
  show ?thesis
    using commit_twice_double_counts[OF e sized_busy_bank c, of 0] e sized_busy_bank
    by (simp add: g t)
qed

section \<open>The feature switched off\<close>

lemma perform_disabled:
  assumes "\<not> Enabled s" and "perform n c s = Some s'"
  shows "\<not> Enabled s' \<and> global_counters s' = global_counters s \<and>
    thread_counters s' = thread_counters s"
  using assms
  by (cases c)
    (auto simp: CountRead_def CountWrite_def Commit_def ResetGlobal_def ResetThread_def
      RecomputeSplit_def Let_def split: if_splits)

lemma run_disabled:
  assumes "\<not> Enabled s" and "run n cs s = Some s'"
  shows "\<not> Enabled s' \<and> global_counters s' = global_counters s \<and>
    thread_counters s' = thread_counters s"
  using assms
proof (induction cs arbitrary: s)
  case Nil
  then show ?case by simp
next
  case (Cons c cs)
  from Cons.prems(2) obtain s1 where 1: "perform n c s = Some s1" and 2: "run n cs s1 = Some s'"
    by (auto split: option.splits)
  from perform_disabled[OF Cons.prems(1) 1] Cons.IH[OF _ 2] show ?case by simp
qed

text \<open>
  C7. With the flag off, every sequence of calls whose column indices pass the assertion
  runs to the end and leaves the flag off and every thread-local and global counter as
  it was, and every query (\<^verbatim>\<open>GetRead\<close>, \<^verbatim>\<open>GetWrite\<close>, \<^verbatim>\<open>Get\<close>, \<^verbatim>\<open>TGetRead\<close>, \<^verbatim>\<open>TGetWrite\<close>,
  \<^verbatim>\<open>TGet\<close>) returns 0 afterwards. \<^verbatim>\<open>RecomputeSplit\<close> changes no counter;
  \<^verbatim>\<open>ComputeSplitIndex\<close> only reads the state, and is a function of it in this model.
\<close>

theorem disabled_calls_are_noops:
  assumes "\<not> Enabled s" and "list_all (call_ok n mt) cs"
  shows "\<exists>s'. run n cs s = Some s' \<and> \<not> Enabled s' \<and>
    global_counters s' = global_counters s \<and> thread_counters s' = thread_counters s \<and>
    (\<forall>i t. GetRead i s' = 0 \<and> GetWrite i s' = 0 \<and> Get i s' = (0, 0) \<and>
      TGetRead t i s' = 0 \<and> TGetWrite t i s' = 0 \<and> TGet t i s' = (0, 0)) \<and>
    global_counters (snd (RecomputeSplit n s)) = global_counters s \<and>
    thread_counters (snd (RecomputeSplit n s)) = thread_counters s"
proof -
  obtain s' where r: "run n cs s = Some s'" using run_defined[OF assms(2)] by blast
  have d: "\<not> Enabled s' \<and> global_counters s' = global_counters s \<and>
    thread_counters s' = thread_counters s" using run_disabled[OF assms(1) r] .
  then have q: "\<forall>i t. GetRead i s' = 0 \<and> GetWrite i s' = 0 \<and> Get i s' = (0, 0) \<and>
      TGetRead t i s' = 0 \<and> TGetWrite t i s' = 0 \<and> TGet t i s' = (0, 0)"
    by (simp add: GetRead_def GetWrite_def Get_def TGetRead_def TGetWrite_def TGet_def)
  have "perform n RecomputeSplitCall s = Some (snd (RecomputeSplit n s))" by simp
  then have "global_counters (snd (RecomputeSplit n s)) = global_counters s \<and>
    thread_counters (snd (RecomputeSplit n s)) = thread_counters s"
    using perform_disabled[OF assms(1)] by blast
  then show ?thesis using r d q by blast
qed

theorem disabled_calls_are_noops_witness:
  "\<not> Enabled disabled_bank \<and>
   list_all (call_ok 4 2)
     [CountReadCall 0 1 5, CountWriteCall 1 3 2, CommitCall 0, RecomputeSplitCall, CommitCall 1] \<and>
   (\<exists>s'. run 4
       [CountReadCall 0 1 5, CountWriteCall 1 3 2, CommitCall 0, RecomputeSplitCall, CommitCall 1]
       disabled_bank = Some s' \<and>
     global_counters s' = global_counters disabled_bank \<and>
     thread_counters s' = thread_counters disabled_bank \<and>
     GetRead 2 s' = 0 \<and> TGetRead 0 2 s' = 0)"
proof -
  have d: "\<not> Enabled disabled_bank" by (simp add: disabled_bank_def)
  have l: "list_all (call_ok 4 2)
     [CountReadCall 0 1 5, CountWriteCall 1 3 2, CommitCall 0, RecomputeSplitCall, CommitCall 1]"
    by simp
  show ?thesis using disabled_calls_are_noops[OF d l] d l by blast
qed

section \<open>Counting\<close>

lemma CountRead_enabled:
  assumes "Enabled s" and "index < n"
  shows "CountRead n tid index count s =
    Some (s\<lparr>thread_counters := (thread_counters s)
      [tid := (thread_counters s ! tid)\<lparr>read_counters :=
         (read_counters (thread_counters s ! tid))
           [index := read_counters (thread_counters s ! tid) ! index + count]\<rparr>]\<rparr>)"
  using assms by (simp add: CountRead_def Let_def)

lemma CountWrite_enabled:
  assumes "Enabled s" and "index < n"
  shows "CountWrite n tid index count s =
    Some (s\<lparr>thread_counters := (thread_counters s)
      [tid := (thread_counters s ! tid)\<lparr>write_counters :=
         (write_counters (thread_counters s ! tid))
           [index := write_counters (thread_counters s ! tid) ! index + count]\<rparr>]\<rparr>)"
  using assms by (simp add: CountWrite_def Let_def)

lemma sized_thread:
  "sized n mt s \<Longrightarrow> t < mt \<Longrightarrow>
     length (read_counters (thread_counters s ! t)) = n \<and>
     length (write_counters (thread_counters s ! t)) = n"
  by (simp add: sized_def sized_CounterSet_def list_all_length)

lemma CountRead_effect:
  assumes "Enabled s" and "sized n mt s" and "tid < mt" and "index < n"
    and "CountRead n tid index count s = Some s'"
  shows "Enabled s'" and "sized n mt s'"
    and "global_counters s' = global_counters s"
    and "t < mt \<Longrightarrow> c < n \<Longrightarrow>
      TGetRead t c s' = TGetRead t c s + (if tid = t \<and> index = c then count else 0)"
    and "TGetWrite t c s' = TGetWrite t c s"
proof -
  note l = sized_thread[OF assms(2,3)]
  have m: "length (thread_counters s) = mt" using assms(2) by (simp add: sized_def)
  have s': "s' = s\<lparr>thread_counters := (thread_counters s)
      [tid := (thread_counters s ! tid)\<lparr>read_counters :=
         (read_counters (thread_counters s ! tid))
           [index := read_counters (thread_counters s ! tid) ! index + count]\<rparr>]\<rparr>"
    using assms(5) CountRead_enabled[OF assms(1,4)] by simp
  show "Enabled s'" using assms(1) by (simp add: s')
  show "sized n mt s'"
    using assms(2,3) l
    by (auto simp: s' sized_def sized_CounterSet_def list_all_length nth_list_update)
  show "global_counters s' = global_counters s" by (simp add: s')
  show "t < mt \<Longrightarrow> c < n \<Longrightarrow>
      TGetRead t c s' = TGetRead t c s + (if tid = t \<and> index = c then count else 0)"
    using assms(1,3,4) l m by (auto simp: s' TGetRead_def nth_list_update)
  show "TGetWrite t c s' = TGetWrite t c s"
    using assms(1,3) m by (cases "t = tid") (auto simp: s' TGetWrite_def nth_list_update)
qed

lemma CountWrite_effect:
  assumes "Enabled s" and "sized n mt s" and "tid < mt" and "index < n"
    and "CountWrite n tid index count s = Some s'"
  shows "Enabled s'" and "sized n mt s'"
    and "global_counters s' = global_counters s"
    and "t < mt \<Longrightarrow> c < n \<Longrightarrow>
      TGetWrite t c s' = TGetWrite t c s + (if tid = t \<and> index = c then count else 0)"
    and "TGetRead t c s' = TGetRead t c s"
proof -
  note l = sized_thread[OF assms(2,3)]
  have m: "length (thread_counters s) = mt" using assms(2) by (simp add: sized_def)
  have s': "s' = s\<lparr>thread_counters := (thread_counters s)
      [tid := (thread_counters s ! tid)\<lparr>write_counters :=
         (write_counters (thread_counters s ! tid))
           [index := write_counters (thread_counters s ! tid) ! index + count]\<rparr>]\<rparr>"
    using assms(5) CountWrite_enabled[OF assms(1,4)] by simp
  show "Enabled s'" using assms(1) by (simp add: s')
  show "sized n mt s'"
    using assms(2,3) l
    by (auto simp: s' sized_def sized_CounterSet_def list_all_length nth_list_update)
  show "global_counters s' = global_counters s" by (simp add: s')
  show "t < mt \<Longrightarrow> c < n \<Longrightarrow>
      TGetWrite t c s' = TGetWrite t c s + (if tid = t \<and> index = c then count else 0)"
    using assms(1,3,4) l m by (auto simp: s' TGetWrite_def nth_list_update)
  show "TGetRead t c s' = TGetRead t c s"
    using assms(1,3) m by (cases "t = tid") (auto simp: s' TGetRead_def nth_list_update)
qed

section \<open>Schedules of counting and committing threads\<close>

lemma counts_of_committed:
  "commit_once D cs \<Longrightarrow> t \<in> D \<Longrightarrow> reads_of t c cs = 0 \<and> writes_of t c cs = 0"
  by (induction D cs rule: commit_once.induct) auto

lemma committers_distinct:
  "commit_once D cs \<Longrightarrow> distinct (committers cs) \<and> (\<forall>t\<in>set (committers cs). t \<notin> D)"
  by (induction D cs rule: commit_once.induct) auto

lemma committers_valid:
  "list_all (call_ok n mt) cs \<Longrightarrow> \<forall>t\<in>set (committers cs). t < mt"
  by (induction cs rule: committers.induct) auto

lemma GetRead_cong:
  "Enabled s' = Enabled s \<Longrightarrow> global_counters s' = global_counters s \<Longrightarrow>
     GetRead c s' = GetRead c s \<and> GetWrite c s' = GetWrite c s"
  by (simp add: GetRead_def GetWrite_def)

lemma schedule_run:
  assumes c: "c < n"
  shows "commit_once D cs \<Longrightarrow> list_all (call_ok n mt) cs \<Longrightarrow> Enabled s \<Longrightarrow> sized n mt s \<Longrightarrow>
    \<exists>s'. run n cs s = Some s' \<and> Enabled s' \<and> sized n mt s' \<and>
      (\<forall>t<mt. TGetRead t c s' = TGetRead t c s + of_nat (reads_of t c cs) \<and>
              TGetWrite t c s' = TGetWrite t c s + of_nat (writes_of t c cs)) \<and>
      GetRead c s' = GetRead c s + (\<Sum>t\<leftarrow>committers cs. TGetRead t c s') \<and>
      GetWrite c s' = GetWrite c s + (\<Sum>t\<leftarrow>committers cs. TGetWrite t c s')"
proof (induction D cs arbitrary: s rule: commit_once.induct)
  case (1 D)
  then show ?case by simp
next
  case (2 D tid index count cs)
  then have ok: "tid < mt" "index < n" and co: "commit_once D cs"
    and la: "list_all (call_ok n mt) cs" by simp_all
  obtain s1 where s1: "CountRead n tid index count s = Some s1"
    using CountRead_enabled[OF "2.prems"(3) ok(2)] by blast
  note eff = CountRead_effect[OF "2.prems"(3,4) ok s1]
  from "2.IH"[OF co la eff(1,2)] obtain s' where
    r: "run n cs s1 = Some s'" and e: "Enabled s'" and z: "sized n mt s'"
    and loc: "\<forall>t<mt. TGetRead t c s' = TGetRead t c s1 + of_nat (reads_of t c cs) \<and>
              TGetWrite t c s' = TGetWrite t c s1 + of_nat (writes_of t c cs)"
    and gr: "GetRead c s' = GetRead c s1 + (\<Sum>t\<leftarrow>committers cs. TGetRead t c s')"
    and gw: "GetWrite c s' = GetWrite c s1 + (\<Sum>t\<leftarrow>committers cs. TGetWrite t c s')"
    by blast
  have g: "GetRead c s1 = GetRead c s \<and> GetWrite c s1 = GetWrite c s"
    using GetRead_cong[of s1 s c] eff(1,3) "2.prems"(3) by simp
  have "run n (CountReadCall tid index count # cs) s = Some s'" using s1 r by simp
  moreover have "\<forall>t<mt. TGetRead t c s' =
        TGetRead t c s + of_nat (reads_of t c (CountReadCall tid index count # cs)) \<and>
      TGetWrite t c s' =
        TGetWrite t c s + of_nat (writes_of t c (CountReadCall tid index count # cs))"
    using loc eff(4)[OF _ c] eff(5) by auto
  ultimately show ?case using e z gr gw g by auto
next
  case (3 D tid index count cs)
  then have ok: "tid < mt" "index < n" and co: "commit_once D cs"
    and la: "list_all (call_ok n mt) cs" by simp_all
  obtain s1 where s1: "CountWrite n tid index count s = Some s1"
    using CountWrite_enabled[OF "3.prems"(3) ok(2)] by blast
  note eff = CountWrite_effect[OF "3.prems"(3,4) ok s1]
  from "3.IH"[OF co la eff(1,2)] obtain s' where
    r: "run n cs s1 = Some s'" and e: "Enabled s'" and z: "sized n mt s'"
    and loc: "\<forall>t<mt. TGetRead t c s' = TGetRead t c s1 + of_nat (reads_of t c cs) \<and>
              TGetWrite t c s' = TGetWrite t c s1 + of_nat (writes_of t c cs)"
    and gr: "GetRead c s' = GetRead c s1 + (\<Sum>t\<leftarrow>committers cs. TGetRead t c s')"
    and gw: "GetWrite c s' = GetWrite c s1 + (\<Sum>t\<leftarrow>committers cs. TGetWrite t c s')"
    by blast
  have g: "GetRead c s1 = GetRead c s \<and> GetWrite c s1 = GetWrite c s"
    using GetRead_cong[of s1 s c] eff(1,3) "3.prems"(3) by simp
  have "run n (CountWriteCall tid index count # cs) s = Some s'" using s1 r by simp
  moreover have "\<forall>t<mt. TGetRead t c s' =
        TGetRead t c s + of_nat (reads_of t c (CountWriteCall tid index count # cs)) \<and>
      TGetWrite t c s' =
        TGetWrite t c s + of_nat (writes_of t c (CountWriteCall tid index count # cs))"
    using loc eff(4)[OF _ c] eff(5) by auto
  ultimately show ?case using e z gr gw g by auto
next
  case (4 D threadid cs)
  then have ok: "threadid < mt" and co: "commit_once (insert threadid D) cs"
    and la: "list_all (call_ok n mt) cs" by simp_all
  define s1 where "s1 = Commit n threadid s"
  have e1: "Enabled s1" using "4.prems"(3) by (simp add: s1_def Enabled_Commit)
  have z1: "sized n mt s1" unfolding s1_def using "4.prems"(4) by (rule sized_Commit)
  from "4.IH"[OF co la e1 z1] obtain s' where
    r: "run n cs s1 = Some s'" and e: "Enabled s'" and z: "sized n mt s'"
    and loc: "\<forall>t<mt. TGetRead t c s' = TGetRead t c s1 + of_nat (reads_of t c cs) \<and>
              TGetWrite t c s' = TGetWrite t c s1 + of_nat (writes_of t c cs)"
    and gr: "GetRead c s' = GetRead c s1 + (\<Sum>t\<leftarrow>committers cs. TGetRead t c s')"
    and gw: "GetWrite c s' = GetWrite c s1 + (\<Sum>t\<leftarrow>committers cs. TGetWrite t c s')"
    by blast
  have same: "TGetRead threadid c s' = TGetRead threadid c s \<and>
      TGetWrite threadid c s' = TGetWrite threadid c s"
    using loc ok counts_of_committed[OF co, of threadid c]
    by (simp add: s1_def TGetRead_Commit TGetWrite_Commit)
  have g1: "GetRead c s1 = GetRead c s + TGetRead threadid c s"
    "GetWrite c s1 = GetWrite c s + TGetWrite threadid c s"
    unfolding s1_def using GetRead_Commit[OF "4.prems"(3,4) c] by simp_all
  have "run n (CommitCall threadid # cs) s = Some s'" using r by (simp add: s1_def)
  moreover have "\<forall>t<mt. TGetRead t c s' =
        TGetRead t c s + of_nat (reads_of t c (CommitCall threadid # cs)) \<and>
      TGetWrite t c s' = TGetWrite t c s + of_nat (writes_of t c (CommitCall threadid # cs))"
    using loc by (simp add: s1_def TGetRead_Commit TGetWrite_Commit)
  moreover have "GetRead c s' =
      GetRead c s + (\<Sum>t\<leftarrow>committers (CommitCall threadid # cs). TGetRead t c s')"
    using gr g1 same by simp
  moreover have "GetWrite c s' =
      GetWrite c s + (\<Sum>t\<leftarrow>committers (CommitCall threadid # cs). TGetWrite t c s')"
    using gw g1 same by simp
  ultimately show ?case using e z by blast
qed simp_all

lemma sum_list_of_nat:
  "(\<Sum>t\<leftarrow>ts. (of_nat (f t) :: counter_type)) = of_nat (\<Sum>t\<leftarrow>ts. f t)"
  by (induction ts) simp_all

lemma initial_reads_zero:
  assumes "c < n"
  shows "GetRead c (INITIALIZE_ADAPTER n mt en) = 0" and "GetWrite c (INITIALIZE_ADAPTER n mt en) = 0"
  using assms by (simp_all add: GetRead_def GetWrite_def INITIALIZE_ADAPTER_def zero_CounterSet_def)

lemma initial_thread_reads_zero:
  assumes "c < n" and "t < mt"
  shows "TGetRead t c (INITIALIZE_ADAPTER n mt en) = 0"
    and "TGetWrite t c (INITIALIZE_ADAPTER n mt en) = 0"
  using assms
  by (simp_all add: TGetRead_def TGetWrite_def INITIALIZE_ADAPTER_def zero_CounterSet_def)

lemma sum_list_cong_set: "(\<And>t. t \<in> set ts \<Longrightarrow> f t = g t) \<Longrightarrow> (\<Sum>t\<leftarrow>ts. f t) = (\<Sum>t\<leftarrow>ts. g t)"
  by (induction ts) simp_all

lemma schedule_aggregate:
  assumes "Enabled s" and "sized n mt s" and "commit_once {} cs"
    and "list_all (call_ok n mt) cs" and "c < n"
  shows "\<exists>s'. run n cs s = Some s' \<and>
    GetRead c s' =
      GetRead c s + (\<Sum>t\<leftarrow>committers cs. TGetRead t c s + of_nat (reads_of t c cs)) \<and>
    GetWrite c s' =
      GetWrite c s + (\<Sum>t\<leftarrow>committers cs. TGetWrite t c s + of_nat (writes_of t c cs))"
proof -
  from schedule_run[OF assms(5,3,4,1,2)] obtain s' where
    r: "run n cs s = Some s'"
    and loc: "\<forall>t<mt. TGetRead t c s' = TGetRead t c s + of_nat (reads_of t c cs) \<and>
              TGetWrite t c s' = TGetWrite t c s + of_nat (writes_of t c cs)"
    and gr: "GetRead c s' = GetRead c s + (\<Sum>t\<leftarrow>committers cs. TGetRead t c s')"
    and gw: "GetWrite c s' = GetWrite c s + (\<Sum>t\<leftarrow>committers cs. TGetWrite t c s')"
    by blast
  have v: "\<forall>t\<in>set (committers cs). t < mt" using committers_valid[OF assms(4)] .
  have lr: "\<And>t. t \<in> set (committers cs) \<Longrightarrow>
      TGetRead t c s' = TGetRead t c s + of_nat (reads_of t c cs)"
    using loc v by simp
  have lw: "\<And>t. t \<in> set (committers cs) \<Longrightarrow>
      TGetWrite t c s' = TGetWrite t c s + of_nat (writes_of t c cs)"
    using loc v by simp
  have "GetRead c s' =
      GetRead c s + (\<Sum>t\<leftarrow>committers cs. TGetRead t c s + of_nat (reads_of t c cs))"
    unfolding gr
    using sum_list_cong_set[of "committers cs" "\<lambda>t. TGetRead t c s'", OF lr] by simp
  moreover have "GetWrite c s' =
      GetWrite c s + (\<Sum>t\<leftarrow>committers cs. TGetWrite t c s + of_nat (writes_of t c cs))"
    unfolding gw
    using sum_list_cong_set[of "committers cs" "\<lambda>t. TGetWrite t c s'", OF lw] by simp
  ultimately show ?thesis using r by blast
qed

lemma sum_list_zero_plus:
  assumes "\<forall>t\<in>set ts. g t = (0::counter_type)"
  shows "(\<Sum>t\<leftarrow>ts. g t + of_nat (f t)) = of_nat (\<Sum>t\<leftarrow>ts. f t)"
  using assms by (induction ts) simp_all

lemma sized_carried_bank: "sized 4 2 carried_bank"
  by (simp add: sized_def carried_bank_def sized_CounterSet_def zero_CounterSet_def)

lemma carried_bank_reached:
  "run 4 [CountReadCall 0 1 5, CommitCall 0, ResetGlobalCall] (INITIALIZE_ADAPTER 4 2 True) =
     Some carried_bank"
  by (simp add: CountRead_def Commit_def ResetGlobal_def Reset_def Commit_body_def
      INITIALIZE_ADAPTER_def zero_CounterSet_def carried_bank_def upt_0_4 Let_def
      eval_nat_numeral)

text \<open>
  C5, as the claim states it: with the feature enabled and the global bank at zero, after
  each thread has recorded its reads and committed once, \<^verbatim>\<open>GetRead(c)\<close> is the sum of the
  reads recorded. It fails in two ways. In \<open>carried_bank\<close>, a state the calls
  \<^verbatim>\<open>CountRead(1, 5)\<close>, \<^verbatim>\<open>Commit\<close>, \<^verbatim>\<open>ResetGlobal\<close> reach, the global bank is zero; thread 0
  then records one read of column 1 and commits, and \<^verbatim>\<open>GetRead(1)\<close> is 6, not 1. And from
  the initial state, a thread that records \<open>2^63\<close> reads of column 0 twice and commits leaves
  \<^verbatim>\<open>GetRead(0)\<close> at 0, not at \<open>2^64\<close>.
\<close>

theorem commit_aggregates_counterexample:
  "run 4 [CountReadCall 0 1 5, CommitCall 0, ResetGlobalCall] (INITIALIZE_ADAPTER 4 2 True) =
     Some carried_bank \<and>
   Enabled carried_bank \<and> global_counters carried_bank = zero_CounterSet 4 \<and>
   GetRead 1 carried_bank = 0 \<and>
   reads_of 0 1 [CountReadCall 0 1 1, CommitCall 0] = 1 \<and>
   map_option (GetRead 1) (run 4 [CountReadCall 0 1 1, CommitCall 0] carried_bank) = Some 6 \<and>
   reads_of 0 0
     [CountReadCall 0 0 9223372036854775808, CountReadCall 0 0 9223372036854775808,
      CommitCall 0] = 18446744073709551616 \<and>
   map_option (GetRead 0)
     (run 4
       [CountReadCall 0 0 9223372036854775808, CountReadCall 0 0 9223372036854775808,
        CommitCall 0] (INITIALIZE_ADAPTER 4 2 True)) = Some 0"
proof -
  have e: "Enabled carried_bank" and g: "global_counters carried_bank = zero_CounterSet 4"
    and g1: "GetRead 1 carried_bank = 0" and t1: "TGetRead 0 1 carried_bank = 5"
    by (simp_all add: carried_bank_def GetRead_def TGetRead_def zero_CounterSet_def)
  have c1: "(1::nat) < 4" and c0: "(0::nat) < 4" by simp_all
  let ?cs = "[CountReadCall 0 1 1, CommitCall 0]"
  have "commit_once {} ?cs" and "list_all (call_ok 4 2) ?cs" by simp_all
  from schedule_aggregate[OF e sized_carried_bank this c1] obtain s' where
    r: "run 4 ?cs carried_bank = Some s'"
    and v: "GetRead 1 s' = GetRead 1 carried_bank +
      (\<Sum>t\<leftarrow>committers ?cs. TGetRead t 1 carried_bank + of_nat (reads_of t 1 ?cs))"
    by blast
  have "GetRead 1 s' = 6" unfolding v using g1 t1 by simp
  then have A: "map_option (GetRead 1) (run 4 ?cs carried_bank) = Some 6"
    unfolding r by simp
  let ?ds = "[CountReadCall 0 0 9223372036854775808, CountReadCall 0 0 9223372036854775808,
      CommitCall 0]"
  let ?i = "INITIALIZE_ADAPTER 4 2 True"
  have ei: "Enabled ?i" by (simp add: INITIALIZE_ADAPTER_def)
  have "commit_once {} ?ds" and "list_all (call_ok 4 2) ?ds" by simp_all
  from schedule_aggregate[OF ei sized_initial this c0] obtain s2 where
    r2: "run 4 ?ds ?i = Some s2"
    and v2: "GetRead 0 s2 = GetRead 0 ?i +
      (\<Sum>t\<leftarrow>committers ?ds. TGetRead t 0 ?i + of_nat (reads_of t 0 ?ds))"
    by blast
  have "GetRead 0 s2 = 0"
    unfolding v2
    using initial_reads_zero(1)[OF c0, of 2 True] initial_thread_reads_zero(1)[OF c0, of 0 2 True]
    by simp
  then have B: "map_option (GetRead 0) (run 4 ?ds ?i) = Some 0"
    unfolding r2 by simp
  have C: "reads_of 0 1 ?cs = 1" and D: "reads_of 0 0 ?ds = 18446744073709551616" by simp_all
  show ?thesis using carried_bank_reached e g g1 A B C D by blast
qed

text \<open>
  C5, amended. Take a state with the feature enabled, and a schedule in which threads
  count reads and writes and commit in any interleaving, every committing thread commits
  once, after all of its counting, and nothing resets a bank. Afterwards \<^verbatim>\<open>GetRead(c)\<close> has
  grown by the sum, over the threads that committed, of what the thread's local counter of
  column \<open>c\<close> held at the start plus the reads the thread recorded, in \<^verbatim>\<open>size_t\<close>
  arithmetic. So if the global counter and the local counters of the committing threads
  start at zero, \<^verbatim>\<open>GetRead(c)\<close> is the sum of the reads recorded modulo \<open>2^64\<close>, which is
  the sum itself when that is below \<open>2^64\<close>. The same holds for \<^verbatim>\<open>GetWrite(c)\<close> and the
  writes.
\<close>

theorem commit_aggregates_counts:
  assumes "Enabled s" and "sized n mt s" and "commit_once {} cs"
    and "list_all (call_ok n mt) cs" and "c < n"
  shows "\<exists>s'. run n cs s = Some s' \<and> distinct (committers cs) \<and>
    GetRead c s' =
      GetRead c s + (\<Sum>t\<leftarrow>committers cs. TGetRead t c s + of_nat (reads_of t c cs)) \<and>
    GetWrite c s' =
      GetWrite c s + (\<Sum>t\<leftarrow>committers cs. TGetWrite t c s + of_nat (writes_of t c cs)) \<and>
    (GetRead c s = 0 \<and> (\<forall>t\<in>set (committers cs). TGetRead t c s = 0) \<longrightarrow>
       unat (GetRead c s') = (\<Sum>t\<leftarrow>committers cs. reads_of t c cs) mod 2 ^ 64 \<and>
       ((\<Sum>t\<leftarrow>committers cs. reads_of t c cs) < 2 ^ 64 \<longrightarrow>
          unat (GetRead c s') = (\<Sum>t\<leftarrow>committers cs. reads_of t c cs))) \<and>
    (GetWrite c s = 0 \<and> (\<forall>t\<in>set (committers cs). TGetWrite t c s = 0) \<longrightarrow>
       unat (GetWrite c s') = (\<Sum>t\<leftarrow>committers cs. writes_of t c cs) mod 2 ^ 64 \<and>
       ((\<Sum>t\<leftarrow>committers cs. writes_of t c cs) < 2 ^ 64 \<longrightarrow>
          unat (GetWrite c s') = (\<Sum>t\<leftarrow>committers cs. writes_of t c cs)))"
proof -
  from schedule_aggregate[OF assms] obtain s' where
    r: "run n cs s = Some s'"
    and R: "GetRead c s' =
      GetRead c s + (\<Sum>t\<leftarrow>committers cs. TGetRead t c s + of_nat (reads_of t c cs))"
    and W: "GetWrite c s' =
      GetWrite c s + (\<Sum>t\<leftarrow>committers cs. TGetWrite t c s + of_nat (writes_of t c cs))"
    by blast
  have zr: "unat (GetRead c s') = (\<Sum>t\<leftarrow>committers cs. reads_of t c cs) mod 2 ^ 64"
    if "GetRead c s = 0" and "\<forall>t\<in>set (committers cs). TGetRead t c s = 0"
    unfolding R using that sum_list_zero_plus[of "committers cs" "\<lambda>t. TGetRead t c s"]
    by (simp add: unat_of_nat)
  have zw: "unat (GetWrite c s') = (\<Sum>t\<leftarrow>committers cs. writes_of t c cs) mod 2 ^ 64"
    if "GetWrite c s = 0" and "\<forall>t\<in>set (committers cs). TGetWrite t c s = 0"
    unfolding W using that sum_list_zero_plus[of "committers cs" "\<lambda>t. TGetWrite t c s"]
    by (simp add: unat_of_nat)
  have "GetRead c s = 0 \<and> (\<forall>t\<in>set (committers cs). TGetRead t c s = 0) \<longrightarrow>
       unat (GetRead c s') = (\<Sum>t\<leftarrow>committers cs. reads_of t c cs) mod 2 ^ 64 \<and>
       ((\<Sum>t\<leftarrow>committers cs. reads_of t c cs) < 2 ^ 64 \<longrightarrow>
          unat (GetRead c s') = (\<Sum>t\<leftarrow>committers cs. reads_of t c cs))"
    using zr by auto
  moreover have "GetWrite c s = 0 \<and> (\<forall>t\<in>set (committers cs). TGetWrite t c s = 0) \<longrightarrow>
       unat (GetWrite c s') = (\<Sum>t\<leftarrow>committers cs. writes_of t c cs) mod 2 ^ 64 \<and>
       ((\<Sum>t\<leftarrow>committers cs. writes_of t c cs) < 2 ^ 64 \<longrightarrow>
          unat (GetWrite c s') = (\<Sum>t\<leftarrow>committers cs. writes_of t c cs))"
    using zw by auto
  ultimately show ?thesis using r R W committers_distinct[OF assms(3)] by blast
qed

theorem commit_aggregates_counts_witness:
  "Enabled (INITIALIZE_ADAPTER 4 2 True) \<and> sized 4 2 (INITIALIZE_ADAPTER 4 2 True) \<and>
   commit_once {}
     [CountReadCall 0 1 5, CountReadCall 1 1 7, CommitCall 0, CountWriteCall 1 1 2,
      CountReadCall 1 1 1, CommitCall 1] \<and>
   list_all (call_ok 4 2)
     [CountReadCall 0 1 5, CountReadCall 1 1 7, CommitCall 0, CountWriteCall 1 1 2,
      CountReadCall 1 1 1, CommitCall 1] \<and> (1::nat) < 4 \<and>
   GetRead 1 (INITIALIZE_ADAPTER 4 2 True) = 0 \<and>
   GetWrite 1 (INITIALIZE_ADAPTER 4 2 True) = 0 \<and>
   TGetRead 0 1 (INITIALIZE_ADAPTER 4 2 True) = 0 \<and>
   TGetRead 1 1 (INITIALIZE_ADAPTER 4 2 True) = 0 \<and>
   TGetWrite 0 1 (INITIALIZE_ADAPTER 4 2 True) = 0 \<and>
   TGetWrite 1 1 (INITIALIZE_ADAPTER 4 2 True) = 0 \<and>
   (13::nat) < 2 ^ 64 \<and> (2::nat) < 2 ^ 64 \<and>
   (\<exists>s'. run 4
       [CountReadCall 0 1 5, CountReadCall 1 1 7, CommitCall 0, CountWriteCall 1 1 2,
        CountReadCall 1 1 1, CommitCall 1] (INITIALIZE_ADAPTER 4 2 True) = Some s' \<and>
     unat (GetRead 1 s') = 13 \<and> unat (GetWrite 1 s') = 2)"
proof -
  let ?cs = "[CountReadCall 0 1 5, CountReadCall 1 1 7, CommitCall 0, CountWriteCall 1 1 2,
      CountReadCall 1 1 1, CommitCall 1]"
  let ?i = "INITIALIZE_ADAPTER 4 2 True"
  have e: "Enabled ?i" by (simp add: INITIALIZE_ADAPTER_def)
  have a: "commit_once {} ?cs" by simp
  have b: "list_all (call_ok 4 2) ?cs" by simp
  have c: "(1::nat) < 4" by simp
  have z: "GetRead 1 ?i = 0" "GetWrite 1 ?i = 0"
    "TGetRead 0 1 ?i = 0" "TGetRead 1 1 ?i = 0" "TGetWrite 0 1 ?i = 0" "TGetWrite 1 1 ?i = 0"
    using initial_reads_zero[OF c, of 2 True] initial_thread_reads_zero[OF c, of 0 2 True]
      initial_thread_reads_zero[OF c, of 1 2 True]
    by simp_all
  have cm: "committers ?cs = [0, 1]" by simp
  have r: "(\<Sum>t\<leftarrow>committers ?cs. reads_of t 1 ?cs) = 13"
    and w: "(\<Sum>t\<leftarrow>committers ?cs. writes_of t 1 ?cs) = 2" by simp_all
  have zr: "GetRead 1 ?i = 0 \<and> (\<forall>t\<in>set (committers ?cs). TGetRead t 1 ?i = 0)"
    and zw: "GetWrite 1 ?i = 0 \<and> (\<forall>t\<in>set (committers ?cs). TGetWrite t 1 ?i = 0)"
    unfolding cm using z by simp_all
  have lt: "(13::nat) < 2 ^ 64" "(2::nat) < 2 ^ 64" by simp_all
  from commit_aggregates_counts[OF e sized_initial a b c] obtain s' where
    1: "run 4 ?cs ?i = Some s'"
    and 2: "GetRead 1 ?i = 0 \<and> (\<forall>t\<in>set (committers ?cs). TGetRead t 1 ?i = 0) \<longrightarrow>
       unat (GetRead 1 s') = (\<Sum>t\<leftarrow>committers ?cs. reads_of t 1 ?cs) mod 2 ^ 64 \<and>
       ((\<Sum>t\<leftarrow>committers ?cs. reads_of t 1 ?cs) < 2 ^ 64 \<longrightarrow>
          unat (GetRead 1 s') = (\<Sum>t\<leftarrow>committers ?cs. reads_of t 1 ?cs))"
    and 3: "GetWrite 1 ?i = 0 \<and> (\<forall>t\<in>set (committers ?cs). TGetWrite t 1 ?i = 0) \<longrightarrow>
       unat (GetWrite 1 s') = (\<Sum>t\<leftarrow>committers ?cs. writes_of t 1 ?cs) mod 2 ^ 64 \<and>
       ((\<Sum>t\<leftarrow>committers ?cs. writes_of t 1 ?cs) < 2 ^ 64 \<longrightarrow>
          unat (GetWrite 1 s') = (\<Sum>t\<leftarrow>committers ?cs. writes_of t 1 ?cs))"
    by blast
  have "unat (GetRead 1 s') = 13" using 2 zr lt(1) unfolding r by blast
  moreover have "unat (GetWrite 1 s') = 2" using 3 zw lt(2) unfolding w by blast
  ultimately have "\<exists>s'. run 4 ?cs ?i = Some s' \<and> unat (GetRead 1 s') = 13 \<and>
      unat (GetWrite 1 s') = 2" using 1 by blast
  then show ?thesis using e sized_initial[of 4 2 True] a b c z lt by blast
qed

section \<open>The hysteresis of the first scan\<close>

lemma binary64_abs:
  assumes "binary64 r"
  shows "binary64 \<bar>r\<bar>"
proof -
  from assms obtain m e where r: "r = of_int m * 2 powi e" and m: "\<bar>m\<bar> < 2 ^ 53"
    and e: "- 1074 \<le> e" and rng: "\<bar>r\<bar> \<le> max_double"
    unfolding binary64_def by blast
  have "\<bar>r\<bar> = of_int \<bar>m\<bar> * 2 powi e" by (simp add: r abs_mult)
  moreover have "\<bar>\<bar>m\<bar>\<bar> < 2 ^ 53" using m by simp
  ultimately have "\<exists>m' e'. \<bar>r\<bar> = of_int m' * 2 powi e' \<and> \<bar>m'\<bar> < 2 ^ 53 \<and> - 1074 \<le> e'"
    using e by blast
  then show ?thesis using rng unfolding binary64_def by simp
qed

lemma round_double_not_NaN: "round_double q \<noteq> NaN"
  by (simp add: round_double_def Let_def)

lemma dabs_round_double:
  "dabs (round_double q) = PInf \<or> (\<exists>r. dabs (round_double q) = Fin r \<and> binary64 r \<and> 0 \<le> r)"
proof (cases "round_double q")
  case (Fin r)
  then have "binary64 \<bar>r\<bar>" using round_double_binary64 binary64_abs by blast
  then show ?thesis using Fin by simp
qed (simp_all add: round_double_not_NaN)

lemma dabs_dsub_cases:
  "dabs (dsub x y) = NaN \<or> dabs (dsub x y) = PInf \<or>
   (\<exists>r. dabs (dsub x y) = Fin r \<and> binary64 r \<and> 0 \<le> r)"
  using dabs_round_double by (cases x; cases y) auto

lemma one_le_c105: "(1::rat) \<le> 4728779608739021 / 4503599627370496"
  by simp

lemma no_gain_on_tie:
  assumes "v = NaN \<or> v = PInf \<or> (\<exists>r. v = Fin r \<and> binary64 r \<and> 0 \<le> r)"
  shows "\<not> dless (dmul v d_1_05) v"
proof -
  consider "v = NaN" | "v = PInf" | r where "v = Fin r" "binary64 r" "0 \<le> r"
    using assms by blast
  then show ?thesis
  proof cases
    case 1
    then show ?thesis by simp
  next
    case 2
    then show ?thesis by (simp add: d_1_05_value)
  next
    case 3
    have "r * 1 \<le> r * (4728779608739021 / 4503599627370496)"
      using 3(3) one_le_c105 by (rule mult_left_mono[rotated])
    then have le: "r \<le> r * (4728779608739021 / 4503599627370496)" by simp
    from round_double_above[OF 3(2,3) le]
    show ?thesis using 3(1) by (auto simp: d_1_05_value)
  qed
qed

lemma skew_diff_no_gain: "\<not> dgreater (skew_diff a k) (dmul (skew_diff a k) d_1_05)"
  unfolding dgreater_def skew_diff_def by (rule no_gain_on_tie) (rule dabs_dsub_cases)

lemma dless_chain: "dless x y \<Longrightarrow> \<not> dless z y \<Longrightarrow> dless z w \<Longrightarrow> dless x w"
  by (cases x; cases y; cases z; cases w) auto

lemma skew_body_eq:
  "skew_body a k
     (b, left_fraction (read_psum a) (read_total a) b,
         left_fraction (write_psum a) (write_total a) b) =
   (let b' = (if dgreater (skew_diff a k) (dmul (skew_diff a b) d_1_05) then k else b)
    in (b', left_fraction (read_psum a) (read_total a) b',
            left_fraction (write_psum a) (write_total a) b'))"
  by (simp add: skew_body_def skew_diff_def Let_def)

lemma skew_loop_scan:
  "skew_loop a k
     (b, left_fraction (read_psum a) (read_total a) b,
         left_fraction (write_psum a) (write_total a) b) =
   (skew_scan a k b,
    left_fraction (read_psum a) (read_total a) (skew_scan a k b),
    left_fraction (write_psum a) (write_total a) (skew_scan a k b))"
proof (induction k arbitrary: b)
  case 0
  then show ?case by simp
next
  case (Suc k)
  show ?case
    unfolding skew_loop.simps skew_scan.simps skew_body_eq Let_def by (rule Suc.IH)
qed

lemma skew_pass_scan:
  "skew_pass n a =
   (skew_scan a (n - 1) n,
    left_fraction (read_psum a) (read_total a) (skew_scan a (n - 1) n),
    left_fraction (write_psum a) (write_total a) (skew_scan a (n - 1) n))"
  unfolding skew_pass_def by (rule skew_loop_scan)

lemma skew_scan_invariant:
  assumes "\<forall>j. k < j \<and> j \<le> n \<longrightarrow> \<not> dgreater (skew_diff a j) (dmul (skew_diff a b) d_1_05)"
    and "\<forall>j. b < j \<and> j \<le> n \<longrightarrow> skew_diff a j \<noteq> skew_diff a b"
    and "k < b" and "b \<le> n"
  shows "(\<forall>j. 0 < j \<and> j \<le> n \<longrightarrow>
           \<not> dgreater (skew_diff a j) (dmul (skew_diff a (skew_scan a k b)) d_1_05)) \<and>
         (\<forall>j. skew_scan a k b < j \<and> j \<le> n \<longrightarrow> skew_diff a j \<noteq> skew_diff a (skew_scan a k b))"
  using assms
proof (induction k arbitrary: b)
  case 0
  then show ?case by simp
next
  case (Suc k)
  let ?D = "skew_diff a"
  let ?M = "\<lambda>v. dmul v d_1_05"
  show ?case
  proof (cases "dgreater (?D (Suc k)) (?M (?D b))")
    case True
    then have step: "skew_scan a (Suc k) b = skew_scan a k (Suc k)" by simp
    have win: "dless (?M (?D b)) (?D (Suc k))" using True by (simp add: dgreater_def)
    have tie: "\<not> dless (?M (?D (Suc k))) (?D (Suc k))"
      using skew_diff_no_gain[of a "Suc k"] by (simp add: dgreater_def)
    have 1: "\<forall>j. k < j \<and> j \<le> n \<longrightarrow> \<not> dgreater (?D j) (?M (?D (Suc k)))"
    proof (intro allI impI)
      fix j assume j: "k < j \<and> j \<le> n"
      show "\<not> dgreater (?D j) (?M (?D (Suc k)))"
      proof (cases "j = Suc k")
        case True
        then show ?thesis using skew_diff_no_gain by simp
      next
        case False
        then have "Suc k < j \<and> j \<le> n" using j by simp
        then have old: "\<not> dless (?M (?D b)) (?D j)"
          using Suc.prems(1) by (simp add: dgreater_def)
        show ?thesis
        proof
          assume "dgreater (?D j) (?M (?D (Suc k)))"
          then have "dless (?M (?D (Suc k))) (?D j)" by (simp add: dgreater_def)
          from dless_chain[OF win tie this] old show False by simp
        qed
      qed
    qed
    have 2: "\<forall>j. Suc k < j \<and> j \<le> n \<longrightarrow> ?D j \<noteq> ?D (Suc k)"
    proof (intro allI impI)
      fix j assume j: "Suc k < j \<and> j \<le> n"
      then have "\<not> dless (?M (?D b)) (?D j)" using Suc.prems(1) by (simp add: dgreater_def)
      then show "?D j \<noteq> ?D (Suc k)" using win by auto
    qed
    have 3: "k < Suc k" and 4: "Suc k \<le> n" using Suc.prems(3,4) by simp_all
    show ?thesis unfolding step by (rule Suc.IH[OF 1 2 3 4])
  next
    case False
    then have step: "skew_scan a (Suc k) b = skew_scan a k b" by simp
    have 1: "\<forall>j. k < j \<and> j \<le> n \<longrightarrow> \<not> dgreater (?D j) (?M (?D b))"
    proof (intro allI impI)
      fix j assume j: "k < j \<and> j \<le> n"
      show "\<not> dgreater (?D j) (?M (?D b))"
      proof (cases "j = Suc k")
        case True
        then show ?thesis using False by simp
      next
        case F: False
        then have "Suc k < j \<and> j \<le> n" using j by simp
        then show ?thesis using Suc.prems(1) by simp
      qed
    qed
    have 3: "k < b" using Suc.prems(3) by simp
    show ?thesis unfolding step by (rule Suc.IH[OF 1 Suc.prems(2) 3 Suc.prems(4)])
  qed
qed

lemma skew_scan_stable:
  assumes "0 < n"
  shows "\<forall>j. 0 < j \<and> j \<le> n \<longrightarrow>
           \<not> dgreater (skew_diff a j) (dmul (skew_diff a (skew_scan a (n - 1) n)) d_1_05)"
    and "\<forall>j. skew_scan a (n - 1) n < j \<and> j \<le> n \<longrightarrow>
           skew_diff a j \<noteq> skew_diff a (skew_scan a (n - 1) n)"
proof -
  have 1: "\<forall>j. n - 1 < j \<and> j \<le> n \<longrightarrow> \<not> dgreater (skew_diff a j) (dmul (skew_diff a n) d_1_05)"
  proof (intro allI impI)
    fix j assume "n - 1 < j \<and> j \<le> n"
    then have "j = n" using assms by arith
    then show "\<not> dgreater (skew_diff a j) (dmul (skew_diff a n) d_1_05)"
      using skew_diff_no_gain by simp
  qed
  have 2: "\<forall>j. n < j \<and> j \<le> n \<longrightarrow> skew_diff a j \<noteq> skew_diff a n" by auto
  have 3: "n - 1 < n" using assms by simp
  note inv = skew_scan_invariant[OF 1 2 3 le_refl]
  show "\<forall>j. 0 < j \<and> j \<le> n \<longrightarrow>
           \<not> dgreater (skew_diff a j) (dmul (skew_diff a (skew_scan a (n - 1) n)) d_1_05)"
    using inv by blast
  show "\<forall>j. skew_scan a (n - 1) n < j \<and> j \<le> n \<longrightarrow>
           skew_diff a j \<noteq> skew_diff a (skew_scan a (n - 1) n)"
    using inv by blast
qed

section \<open>The margin of the first scan\<close>

lemma scan_step_eq:
  "scan_step a k b =
     (if dgreater (skew_diff a k) (dmul (skew_diff a b) d_1_05) then k else b)"
  by (simp add: scan_step_def skew_body_eq)

lemma skew_diff_Fin:
  assumes "skew_diff a k = Fin y"
  shows "binary64 y" and "0 \<le> y"
  using dabs_dsub_cases[of "left_fraction (write_psum a) (write_total a) k"
      "left_fraction (read_psum a) (read_total a) k"] assms
  by (auto simp: skew_diff_def)

lemma c105_above: "(105 / 100 :: rat) \<le> 4728779608739021 / 4503599627370496"
  by simp

lemma keep_within_margin:
  assumes k: "skew_diff a k = Fin y" and b: "skew_diff a b = Fin x" and m: "y \<le> x * (105 / 100)"
  shows "\<not> dgreater (skew_diff a k) (dmul (skew_diff a b) d_1_05)"
proof -
  have x: "0 \<le> x" using skew_diff_Fin(2)[OF b] .
  have "x * (105 / 100) \<le> x * (4728779608739021 / 4503599627370496)"
    using c105_above x by (rule mult_left_mono)
  then have le: "y \<le> x * (4728779608739021 / 4503599627370496)" using m by linarith
  from round_double_above[OF skew_diff_Fin[OF k] le]
  show ?thesis unfolding k b by (auto simp: dgreater_def d_1_05_value)
qed

lemma replace_from_zero:
  assumes "skew_diff a k = Fin y" and "skew_diff a b = Fin 0" and "0 < y"
  shows "dgreater (skew_diff a k) (dmul (skew_diff a b) d_1_05)"
  using assms by (simp add: dgreater_def d_1_05_value round_double_0)

lemma keep_on_NaN:
  assumes "skew_diff a k = NaN \<or> skew_diff a b = NaN"
  shows "\<not> dgreater (skew_diff a k) (dmul (skew_diff a b) d_1_05)"
  using assms by (cases "skew_diff a k") (auto simp: dgreater_def)

lemma round_even_upper: "of_int (round_even t) \<le> t + 1 / 2"
proof -
  have f: "of_int \<lfloor>t\<rfloor> \<le> t" by simp
  have "round_even t = \<lfloor>t\<rfloor> \<or> (round_even t = \<lfloor>t\<rfloor> + 1 \<and> 1 / 2 \<le> t - of_int \<lfloor>t\<rfloor>)"
    by (auto simp add: round_even_def Let_def)
  then show ?thesis
  proof
    assume "round_even t = \<lfloor>t\<rfloor>"
    then show ?thesis using f by linarith
  next
    assume a: "round_even t = \<lfloor>t\<rfloor> + 1 \<and> 1 / 2 \<le> t - of_int \<lfloor>t\<rfloor>"
    then have "(of_int (round_even t) :: rat) = of_int \<lfloor>t\<rfloor> + 1" by simp
    then show ?thesis using a by linarith
  qed
qed

lemma round_double_upper:
  assumes lo: "2 powi (- 1022) \<le> q" and hi: "q * (1 + 1 / 2 ^ 53) \<le> max_double"
  shows "\<exists>r. round_double q = Fin r \<and> r \<le> q * (1 + 1 / 2 ^ 53)"
proof -
  have pos: "0 < q" using lo powi2_pos[of "- 1022"] by linarith
  then have q0: "q \<noteq> 0" and aq: "\<bar>q\<bar> = q" by simp_all
  define L where "L = ilog2 q"
  have "(2::rat) powi (- 1022) < 2 powi (L + 1)"
    using lo ilog2_bounds(2)[OF pos] unfolding L_def by linarith
  then have "- 1022 < L + 1" by (simp only: powi2_less_iff)
  then have e: "max (L - 52) (- 1074) = L - 52" by simp
  define k where "k = round_even (q / 2 powi (L - 52))"
  define r :: rat where "r = of_int k * 2 powi (L - 52)"
  have rd: "round_double q =
      (if max_double < r then PInf else if r < - max_double then NInf else Fin r)"
    unfolding round_double_unfold[OF q0] aq L_def[symmetric] e Let_def r_def k_def ..
  have "of_int k \<le> q / 2 powi (L - 52) + 1 / 2" unfolding k_def by (rule round_even_upper)
  then have "of_int k * 2 powi (L - 52) \<le> (q / 2 powi (L - 52) + 1 / 2) * 2 powi (L - 52)"
    by (rule mult_right_mono) simp
  also have "\<dots> = q + 2 powi (L - 52) / 2" by (simp add: algebra_simps)
  also have "2 powi (L - 52) / 2 = (2::rat) powi L / 2 ^ 53" by (simp add: powi2_diff)
  also have "q + 2 powi L / 2 ^ 53 \<le> q + q / 2 ^ 53"
    using ilog2_bounds(1)[OF pos] unfolding L_def by (simp add: divide_right_mono)
  also have "\<dots> = q * (1 + 1 / 2 ^ 53)" by (simp add: algebra_simps)
  finally have up: "r \<le> q * (1 + 1 / 2 ^ 53)" unfolding r_def .
  have "of_int 0 \<le> q / 2 powi (L - 52)" using pos by simp
  then have "0 \<le> k" unfolding k_def by (rule round_even_ge)
  then have r0: "0 \<le> r" by (simp add: r_def)
  have md: "0 \<le> max_double" by (simp add: max_double_def)
  have "round_double q = Fin r" unfolding rd using up hi r0 md by auto
  then show ?thesis using up by blast
qed

lemma margin_numbers:
  "(4728779608739021 / 4503599627370496 :: rat) * (1 + 1 / 2 ^ 53) < 105 / 100 * (1 + 1 / 2 ^ 52)"
  "(4728779608739021 / 4503599627370496 :: rat) * (1 + 1 / 2 ^ 53) \<le> 2"
  "(2::rat) ^ 1023 \<le> max_double"
  by (simp_all add: max_double_def)

lemma replace_beyond_margin:
  assumes k: "skew_diff a k = Fin y" and b: "skew_diff a b = Fin x"
    and lo: "2 powi (- 1022) \<le> x" and hi: "x \<le> 2 ^ 1022"
    and m: "x * (105 / 100) * (1 + 1 / 2 ^ 52) \<le> y"
  shows "dgreater (skew_diff a k) (dmul (skew_diff a b) d_1_05)"
proof -
  let ?c = "4728779608739021 / 4503599627370496 :: rat"
  have pos: "0 < x" using lo powi2_pos[of "- 1022"] by linarith
  have "x * 1 \<le> x * ?c" using pos by (intro mult_left_mono) simp_all
  then have lo': "2 powi (- 1022) \<le> x * ?c" using lo by simp
  have "x * (?c * (1 + 1 / 2 ^ 53)) \<le> x * 2"
    using pos margin_numbers(2) by (intro mult_left_mono) simp_all
  also have "\<dots> \<le> 2 ^ 1022 * 2" using hi by simp
  also have "\<dots> = (2::rat) ^ 1023" by simp
  finally have hi': "x * ?c * (1 + 1 / 2 ^ 53) \<le> max_double"
    using margin_numbers(3) by (simp add: mult.assoc)
  from round_double_upper[OF lo' hi'] obtain r where
    r: "round_double (x * ?c) = Fin r" and up: "r \<le> x * ?c * (1 + 1 / 2 ^ 53)" by blast
  have "x * (?c * (1 + 1 / 2 ^ 53)) < x * (105 / 100 * (1 + 1 / 2 ^ 52))"
    using pos margin_numbers(1) by (rule mult_strict_left_mono[rotated])
  then have ry: "r < y" using up m by (simp add: mult.assoc)
  have "dmul (skew_diff a b) d_1_05 = Fin r" unfolding b d_1_05_value using r by simp
  then show ?thesis unfolding dgreater_def k using ry by simp
qed

section \<open>A near-tie\<close>

lemma snapshot_near_tie:
  assumes "Enabled s" and "read_counters (global_counters s) = [0, 50, 10, 4]"
    and "write_counters (global_counters s) = [0, 9, 11, 44]"
  shows "take_snapshot 4 s =
    \<lparr>read_freq = [0, 50, 10, 4], write_freq = [0, 9, 11, 44],
     read_psum = [0, 50, 60, 64], write_psum = [0, 9, 20, 64],
     read_total = 64, write_total = 64\<rparr>"
  by (simp add: take_snapshot_def upt_0_4 snapshot_body_def fresh_snapshot_def GetRead_def
      GetWrite_def assms eval_nat_numeral)

lemma rd_near_tie:
  "round_double (15 / 16) = Fin (15 / 16)"
  "round_double (25 / 32) = Fin (25 / 32)"
  "round_double (5 / 16) = Fin (5 / 16)"
  "round_double (9 / 64) = Fin (9 / 64)"
  "round_double (- (5 / 8)) = Fin (- (5 / 8))"
  "round_double (- (41 / 64)) = Fin (- (41 / 64))"
  using round_double_dyadic[of 15 4] round_double_dyadic[of 25 5] round_double_dyadic[of 5 4]
    round_double_dyadic[of 9 6] round_double_dyadic[of "- 5" 3] round_double_dyadic[of "- 41" 6]
  by simp_all

lemma fractions_near_tie:
  "left_fraction [0, 50, 60, 64] 64 4 = Fin 1"
  "left_fraction [0, 50, 60, 64] 64 3 = Fin (15 / 16)"
  "left_fraction [0, 50, 60, 64] 64 2 = Fin (25 / 32)"
  "left_fraction [0, 50, 60, 64] 64 (Suc 0) = Fin 0"
  "left_fraction [0, 9, 20, 64] 64 4 = Fin 1"
  "left_fraction [0, 9, 20, 64] 64 3 = Fin (5 / 16)"
  "left_fraction [0, 9, 20, 64] 64 2 = Fin (9 / 64)"
  "left_fraction [0, 9, 20, 64] 64 (Suc 0) = Fin 0"
  by (simp_all add: left_fraction_small rd_values rd_near_tie)

lemma diffs_near_tie:
  assumes "a = \<lparr>read_freq = [0, 50, 10, 4], write_freq = [0, 9, 11, 44],
     read_psum = [0, 50, 60, 64], write_psum = [0, 9, 20, 64],
     read_total = 64, write_total = 64\<rparr>"
  shows "skew_diff a 4 = Fin 0" and "skew_diff a 3 = Fin (5 / 8)"
    and "skew_diff a 2 = Fin (41 / 64)" and "skew_diff a (Suc 0) = Fin 0"
  unfolding assms by (simp_all add: skew_diff_def fractions_near_tie rd_values rd_near_tie)

lemma skew_scan_3: "skew_scan a 3 b = skew_scan a 0 (scan_step a (Suc 0) (scan_step a 2 (scan_step a 3 b)))"
  by (simp add: numeral_3_eq_3 numeral_2_eq_2 scan_step_eq)

lemma steps_near_tie:
  assumes "a = \<lparr>read_freq = [0, 50, 10, 4], write_freq = [0, 9, 11, 44],
     read_psum = [0, 50, 60, 64], write_psum = [0, 9, 20, 64],
     read_total = 64, write_total = 64\<rparr>"
  shows "scan_step a 3 4 = 3" and "scan_step a 2 3 = 3" and "scan_step a (Suc 0) 3 = 3"
proof -
  note d = diffs_near_tie[OF assms]
  have "(0::rat) < 5 / 8" by simp
  from replace_from_zero[OF d(2) d(1) this] show "scan_step a 3 4 = 3"
    by (simp add: scan_step_eq)
  have "(41 / 64 :: rat) \<le> 5 / 8 * (105 / 100)" by simp
  from keep_within_margin[OF d(3) d(2) this] show "scan_step a 2 3 = 3"
    by (simp add: scan_step_eq)
  have "(0::rat) \<le> 5 / 8 * (105 / 100)" by simp
  from keep_within_margin[OF d(4) d(2) this] show "scan_step a (Suc 0) 3 = 3"
    by (simp add: scan_step_eq)
qed

lemma skew_pass_near_tie:
  assumes "a = \<lparr>read_freq = [0, 50, 10, 4], write_freq = [0, 9, 11, 44],
     read_psum = [0, 50, 60, 64], write_psum = [0, 9, 20, 64],
     read_total = 64, write_total = 64\<rparr>"
  shows "fst (skew_pass 4 a) = 3"
  by (simp add: skew_pass_scan skew_scan_3 steps_near_tie[OF assms])

lemma ComputeSplitIndex_near_tie:
  assumes "Enabled s" and "read_counters (global_counters s) = [0, 50, 10, 4]"
    and "write_counters (global_counters s) = [0, 9, 11, 44]"
  shows "ComputeSplitIndex 4 s = 3"
  by (simp add: ComputeSplitIndex_def skew_pass_near_tie[OF snapshot_near_tie[OF assms]])

lemma diffs_skewed:
  assumes "a = \<lparr>read_freq = [10, 10, 10, 10], write_freq = [0, 0, 40, 40],
     read_psum = [10, 20, 30, 40], write_psum = [0, 0, 40, 80],
     read_total = 40, write_total = 80\<rparr>"
  shows "skew_diff a 3 = Fin (1 / 4)" and "skew_diff a 2 = Fin (1 / 2)"
  unfolding assms by (simp_all add: skew_diff_def fractions_skewed rd_values)

lemma skew_diff_fresh: "0 < k \<Longrightarrow> k \<le> n \<Longrightarrow> skew_diff (fresh_snapshot n) k = NaN"
  by (simp add: skew_diff_def fresh_snapshot_def left_fraction_zero)

text \<open>
  C3. The first scan of \<^verbatim>\<open>ComputeSplitIndex\<close> starts with the best candidate \<^verbatim>\<open>COLCOUNT\<close>
  and visits the candidates \<^verbatim>\<open>COLCOUNT - 1\<close> down to 1; at each it runs \<open>scan_step\<close>, and
  the fractions it caches are those of the best candidate. The step replaces the best
  candidate \<open>b\<close> by the visited \<open>k\<close> exactly when \<open>diff(k) > diff(b) * 1.05\<close> in
  \<^verbatim>\<open>double\<close> arithmetic. In numbers, for finite \<open>diff(k) = y\<close> and \<open>diff(b) = x\<close>: \<open>b\<close> is
  kept whenever \<open>y \<le> 1.05 x\<close>, so ties and near-ties keep the best found before; \<open>k\<close>
  replaces \<open>b\<close> whenever \<open>x = 0 < y\<close>, and whenever \<open>y \<ge> 1.05 x (1 + 2^-52)\<close> for a normal
  \<open>x\<close> (the factor is the rounding of the product). A NaN on either side keeps \<open>b\<close>.
  At the end no candidate exceeds the \<open>diff\<close> of the result times \<open>1.05\<close>, and no larger
  candidate has the same \<open>diff\<close> as the result: among candidates of equal \<open>diff\<close> the
  larger wins.
\<close>

theorem skew_scan_hysteresis:
  assumes "0 < n"
  shows "skew_pass n a =
      (skew_scan a (n - 1) n,
       left_fraction (read_psum a) (read_total a) (skew_scan a (n - 1) n),
       left_fraction (write_psum a) (write_total a) (skew_scan a (n - 1) n)) \<and>
    skew_scan a (Suc k) b = skew_scan a k (scan_step a (Suc k) b) \<and>
    scan_step a k b =
      (if dgreater (skew_diff a k) (dmul (skew_diff a b) d_1_05) then k else b) \<and>
    (skew_diff a k = Fin y \<and> skew_diff a b = Fin x \<and> y \<le> x * (105 / 100) \<longrightarrow>
      scan_step a k b = b) \<and>
    (skew_diff a k = Fin y \<and> skew_diff a b = Fin 0 \<and> 0 < y \<longrightarrow> scan_step a k b = k) \<and>
    (skew_diff a k = Fin y \<and> skew_diff a b = Fin x \<and> 2 powi (- 1022) \<le> x \<and> x \<le> 2 ^ 1022 \<and>
      x * (105 / 100) * (1 + 1 / 2 ^ 52) \<le> y \<longrightarrow> scan_step a k b = k) \<and>
    (skew_diff a k = NaN \<or> skew_diff a b = NaN \<longrightarrow> scan_step a k b = b) \<and>
    (skew_diff a k = skew_diff a b \<longrightarrow> scan_step a k b = b) \<and>
    (\<forall>j. 0 < j \<and> j \<le> n \<longrightarrow>
      \<not> dgreater (skew_diff a j) (dmul (skew_diff a (fst (skew_pass n a))) d_1_05)) \<and>
    (\<forall>j. fst (skew_pass n a) < j \<and> j \<le> n \<longrightarrow>
      skew_diff a j \<noteq> skew_diff a (fst (skew_pass n a)))"
proof -
  have f: "fst (skew_pass n a) = skew_scan a (n - 1) n" by (simp add: skew_pass_scan)
  have 1: "skew_scan a (Suc k) b = skew_scan a k (scan_step a (Suc k) b)"
    by (simp add: scan_step_eq)
  have 2: "skew_diff a k = Fin y \<and> skew_diff a b = Fin x \<and> y \<le> x * (105 / 100) \<longrightarrow>
      scan_step a k b = b"
    using keep_within_margin[of a k y b x] by (simp add: scan_step_eq)
  have 3: "skew_diff a k = Fin y \<and> skew_diff a b = Fin 0 \<and> 0 < y \<longrightarrow> scan_step a k b = k"
    using replace_from_zero[of a k y b] by (simp add: scan_step_eq)
  have 4: "skew_diff a k = Fin y \<and> skew_diff a b = Fin x \<and> 2 powi (- 1022) \<le> x \<and>
      x \<le> 2 ^ 1022 \<and> x * (105 / 100) * (1 + 1 / 2 ^ 52) \<le> y \<longrightarrow> scan_step a k b = k"
    using replace_beyond_margin[of a k y b x] unfolding scan_step_eq by presburger
  have 5: "skew_diff a k = NaN \<or> skew_diff a b = NaN \<longrightarrow> scan_step a k b = b"
    using keep_on_NaN[of a k b] by (simp add: scan_step_eq)
  have 6: "skew_diff a k = skew_diff a b \<longrightarrow> scan_step a k b = b"
    using skew_diff_no_gain[of a b] by (simp add: scan_step_eq)
  show ?thesis
    unfolding f
    using skew_pass_scan[of n a] skew_scan_stable[OF assms, of a] scan_step_eq[of a k b]
      1 2 3 4 5 6
    by blast
qed

theorem skew_scan_hysteresis_witness:
  "(0::nat) < 4 \<and>
   fst (skew_pass 4 (take_snapshot 4 near_tie_bank)) = skew_scan (take_snapshot 4 near_tie_bank) 3 4 \<and>
   fst (skew_pass 4 (take_snapshot 4 near_tie_bank)) = 3 \<and>
   skew_diff (take_snapshot 4 near_tie_bank) 2 = Fin (41 / 64) \<and>
   skew_diff (take_snapshot 4 near_tie_bank) 3 = Fin (5 / 8) \<and>
   (41 / 64 :: rat) \<le> 5 / 8 * (105 / 100) \<and>
   scan_step (take_snapshot 4 near_tie_bank) 2 3 = 3 \<and>
   skew_diff (take_snapshot 4 near_tie_bank) 4 = Fin 0 \<and> (0::rat) < 5 / 8 \<and>
   scan_step (take_snapshot 4 near_tie_bank) 3 4 = 3 \<and>
   skew_diff (take_snapshot 4 skewed_bank) 2 = Fin (1 / 2) \<and>
   skew_diff (take_snapshot 4 skewed_bank) 3 = Fin (1 / 4) \<and>
   (2::rat) powi (- 1022) \<le> 1 / 4 \<and> (1 / 4 :: rat) \<le> 2 ^ 1022 \<and>
   (1 / 4 :: rat) * (105 / 100) * (1 + 1 / 2 ^ 52) \<le> 1 / 2 \<and>
   scan_step (take_snapshot 4 skewed_bank) 2 3 = 2 \<and>
   skew_diff (fresh_snapshot 4) 2 = NaN \<and> scan_step (fresh_snapshot 4) 2 4 = 4 \<and>
   skew_diff (take_snapshot 4 near_tie_bank) (Suc 0) = skew_diff (take_snapshot 4 near_tie_bank) 4 \<and>
   scan_step (take_snapshot 4 near_tie_bank) (Suc 0) 4 = 4 \<and>
   \<not> dgreater (skew_diff (take_snapshot 4 near_tie_bank) 2)
       (dmul (skew_diff (take_snapshot 4 near_tie_bank) 3) d_1_05) \<and>
   skew_diff (take_snapshot 4 near_tie_bank) 4 \<noteq> skew_diff (take_snapshot 4 near_tie_bank) 3"
proof -
  let ?a = "take_snapshot 4 near_tie_bank"
  let ?s = "take_snapshot 4 skewed_bank"
  let ?f = "fresh_snapshot 4"
  have n: "(0::nat) < 4" by simp
  have a: "?a = \<lparr>read_freq = [0, 50, 10, 4], write_freq = [0, 9, 11, 44],
     read_psum = [0, 50, 60, 64], write_psum = [0, 9, 20, 64],
     read_total = 64, write_total = 64\<rparr>"
    by (rule snapshot_near_tie) (simp_all add: near_tie_bank_def)
  have s: "?s = \<lparr>read_freq = [10, 10, 10, 10], write_freq = [0, 0, 40, 40],
     read_psum = [10, 20, 30, 40], write_psum = [0, 0, 40, 80],
     read_total = 40, write_total = 80\<rparr>"
    by (rule snapshot_skewed) (simp_all add: skewed_bank_def)
  note d = diffs_near_tie[OF a]
  note e = diffs_skewed[OF s]
  have nan: "skew_diff ?f 2 = NaN" by (rule skew_diff_fresh) simp_all
  have three: "fst (skew_pass 4 ?a) = 3" by (rule skew_pass_near_tie[OF a])
  have q1: "(41 / 64 :: rat) \<le> 5 / 8 * (105 / 100)" and q2: "(0::rat) < 5 / 8"
    and q3: "(2::rat) powi (- 1022) \<le> 1 / 4" and q4: "(1 / 4 :: rat) \<le> 2 ^ 1022"
    and q5: "(1 / 4 :: rat) * (105 / 100) * (1 + 1 / 2 ^ 52) \<le> 1 / 2"
    by simp_all
  have 1: "fst (skew_pass 4 ?a) = skew_scan ?a 3 4"
  proof -
    have "skew_pass 4 ?a = (skew_scan ?a (4 - 1) 4,
       left_fraction (read_psum ?a) (read_total ?a) (skew_scan ?a (4 - 1) 4),
       left_fraction (write_psum ?a) (write_total ?a) (skew_scan ?a (4 - 1) 4))"
      using skew_scan_hysteresis[OF n, where a = ?a] by blast
    then show ?thesis by simp
  qed
  have 2: "scan_step ?a 2 3 = 3"
    using skew_scan_hysteresis[OF n, where a = ?a and k = 2 and b = 3 and y = "41 / 64" and x = "5 / 8"] d(2,3) q1 by blast
  have 3: "scan_step ?a 3 4 = 3"
    using skew_scan_hysteresis[OF n, where a = ?a and k = 3 and b = 4 and y = "5 / 8"] d(1,2) q2 by blast
  have 4: "scan_step ?s 2 3 = 2"
    using skew_scan_hysteresis[OF n, where a = ?s and k = 2 and b = 3 and y = "1 / 2" and x = "1 / 4"] e q3 q4 q5 by blast
  have 5: "scan_step ?f 2 4 = 4"
    using skew_scan_hysteresis[OF n, where a = ?f and k = 2 and b = 4] nan by blast
  have t: "skew_diff ?a (Suc 0) = skew_diff ?a 4" using d(1,4) by simp
  have 6: "scan_step ?a (Suc 0) 4 = 4"
    using skew_scan_hysteresis[OF n, where a = ?a and k = "Suc 0" and b = 4] t by blast
  have "\<forall>j. 0 < j \<and> j \<le> 4 \<longrightarrow>
      \<not> dgreater (skew_diff ?a j) (dmul (skew_diff ?a (fst (skew_pass 4 ?a))) d_1_05)"
    using skew_scan_hysteresis[OF n, where a = ?a] by blast
  then have 7: "\<not> dgreater (skew_diff ?a 2) (dmul (skew_diff ?a 3) d_1_05)"
    unfolding three by simp
  have "\<forall>j. fst (skew_pass 4 ?a) < j \<and> j \<le> 4 \<longrightarrow>
      skew_diff ?a j \<noteq> skew_diff ?a (fst (skew_pass 4 ?a))"
    using skew_scan_hysteresis[OF n, where a = ?a] by blast
  then have 8: "skew_diff ?a 4 \<noteq> skew_diff ?a 3" unfolding three by simp
  show ?thesis
    using n 1 three d(1,2,3) e nan t q1 q2 q3 q4 q5 2 3 4 5 6 7 8 by blast
qed

end
